theory Spec2Isabelle
  imports Main "HOL-Library.AList"
begin

section \<open>Characters and strings\<close>

text \<open>
  A Python \<open>str\<close> is a sequence of code points. The model uses \<open>string\<close>, whose
  characters are the code points 0 to 255; the character classes below are those of
  Python on that range.
\<close>

definition codepoint :: "char \<Rightarrow> nat" where
  "codepoint c = of_char c"

text \<open>\<open>str.isspace\<close> on one character; also the class \<open>\s\<close> of a \<open>str\<close> pattern.\<close>

definition py_isspace_char :: "char \<Rightarrow> bool" where
  "py_isspace_char c =
     (let n = codepoint c
      in (9 \<le> n \<and> n \<le> 13) \<or> (28 \<le> n \<and> n \<le> 32) \<or> n = 133 \<or> n = 160)"

text \<open>The class \<open>\d\<close> of a \<open>str\<close> pattern, and the digits \<open>int\<close> accepts.\<close>

definition py_isdecimal_char :: "char \<Rightarrow> bool" where
  "py_isdecimal_char c = (let n = codepoint c in 48 \<le> n \<and> n \<le> 57)"

text \<open>\<open>str.isdigit\<close> on one character: the decimal digits and the superscripts 2, 3 and 1.\<close>

definition py_isdigit_char :: "char \<Rightarrow> bool" where
  "py_isdigit_char c =
     (let n = codepoint c in (48 \<le> n \<and> n \<le> 57) \<or> n = 178 \<or> n = 179 \<or> n = 185)"

definition py_isalpha_char :: "char \<Rightarrow> bool" where
  "py_isalpha_char c =
     (let n = codepoint c
      in (65 \<le> n \<and> n \<le> 90) \<or> (97 \<le> n \<and> n \<le> 122) \<or> n = 170 \<or> n = 181 \<or> n = 186
         \<or> (192 \<le> n \<and> n \<le> 214) \<or> (216 \<le> n \<and> n \<le> 246) \<or> (248 \<le> n \<and> n \<le> 255))"

definition py_lower_char :: "char \<Rightarrow> char" where
  "py_lower_char c =
     (let n = codepoint c
      in if (65 \<le> n \<and> n \<le> 90) \<or> (192 \<le> n \<and> n \<le> 222 \<and> n \<noteq> 215)
         then char_of (n + 32) else c)"

definition py_lower :: "string \<Rightarrow> string" where
  "py_lower s = map py_lower_char s"

definition py_isalpha :: "string \<Rightarrow> bool" where
  "py_isalpha s = (s \<noteq> [] \<and> list_all py_isalpha_char s)"

definition py_isdigit :: "string \<Rightarrow> bool" where
  "py_isdigit s = (s \<noteq> [] \<and> list_all py_isdigit_char s)"

text \<open>\<open>str.strip()\<close> with no argument.\<close>

definition py_strip :: "string \<Rightarrow> string" where
  "py_strip s = rev (dropWhile py_isspace_char (rev (dropWhile py_isspace_char s)))"

section \<open>Regular expressions\<close>

text \<open>
  The patterns of the program are sequences of single characters and of quantified
  single-character classes, some of them captured. \<open>rmatch\<close> is the backtracking
  matcher of \<open>re\<close> on such a sequence: a greedy quantifier tries the longest run first,
  a lazy one the shortest, and the first way through that lets the rest of the pattern
  match is the result. It returns the groups captured and the input left.
\<close>

datatype atom = Lit char | Digit | Space | Dot

datatype node = One atom | Opt atom | Star atom | Plus atom | CapPlus atom | CapLazyPlus atom

fun atom_ok :: "bool \<Rightarrow> atom \<Rightarrow> char \<Rightarrow> bool" where
  "atom_ok icase (Lit a) c = (if icase then py_lower_char c = py_lower_char a else c = a)"
| "atom_ok icase Digit c = py_isdecimal_char c"
| "atom_ok icase Space c = py_isspace_char c"
| "atom_ok icase Dot c = (c \<noteq> CHR 0x0A)"

definition run :: "bool \<Rightarrow> atom \<Rightarrow> string \<Rightarrow> nat" where
  "run icase a s = length (takeWhile (atom_ok icase a) s)"

fun first_some :: "'a option list \<Rightarrow> 'a option" where
  "first_some [] = None"
| "first_some (None # xs) = first_some xs"
| "first_some (Some x # xs) = Some x"

fun rmatch :: "bool \<Rightarrow> node list \<Rightarrow> string \<Rightarrow> string list \<Rightarrow> (string list \<times> string) option" where
  "rmatch icase [] s caps = Some (caps, s)"
| "rmatch icase (One a # ns) s caps =
     (case s of [] \<Rightarrow> None
      | c # cs \<Rightarrow> if atom_ok icase a c then rmatch icase ns cs caps else None)"
| "rmatch icase (Opt a # ns) s caps =
     first_some (map (\<lambda>k. rmatch icase ns (drop k s) caps)
                     (rev [0 ..< Suc (min 1 (run icase a s))]))"
| "rmatch icase (Star a # ns) s caps =
     first_some (map (\<lambda>k. rmatch icase ns (drop k s) caps)
                     (rev [0 ..< Suc (run icase a s)]))"
| "rmatch icase (Plus a # ns) s caps =
     first_some (map (\<lambda>k. rmatch icase ns (drop k s) caps)
                     (rev [1 ..< Suc (run icase a s)]))"
| "rmatch icase (CapPlus a # ns) s caps =
     first_some (map (\<lambda>k. rmatch icase ns (drop k s) (caps @ [take k s]))
                     (rev [1 ..< Suc (run icase a s)]))"
| "rmatch icase (CapLazyPlus a # ns) s caps =
     first_some (map (\<lambda>k. rmatch icase ns (drop k s) (caps @ [take k s]))
                     [1 ..< Suc (run icase a s)])"

definition lits :: "string \<Rightarrow> node list" where
  "lits s = map (\<lambda>c. One (Lit c)) s"

text \<open>
  \<open>re.findall\<close> and \<open>re.sub\<close> with the empty replacement, for a pattern that is not
  anchored: the scan tries the pattern at each position from the left and, after a
  match, goes on where the match ended. (A match that consumed nothing moves the scan
  on by one character.) \<open>re_findall\<close> gives the groups of each match.
\<close>

function re_findall :: "node list \<Rightarrow> string \<Rightarrow> string list list" where
  "re_findall p [] = (case rmatch False p [] [] of None \<Rightarrow> [] | Some (caps, rest) \<Rightarrow> [caps])"
| "re_findall p (c # cs) =
     (case rmatch False p (c # cs) [] of
        None \<Rightarrow> re_findall p cs
      | Some (caps, rest) \<Rightarrow>
          caps # (if length rest < Suc (length cs) then re_findall p rest else re_findall p cs))"
  by pat_completeness auto
termination
  by (relation "measure (\<lambda>(p, s). length s)") auto

function re_sub_empty :: "node list \<Rightarrow> string \<Rightarrow> string" where
  "re_sub_empty p [] = []"
| "re_sub_empty p (c # cs) =
     (case rmatch False p (c # cs) [] of
        None \<Rightarrow> c # re_sub_empty p cs
      | Some (caps, rest) \<Rightarrow>
          (if length rest < Suc (length cs) then re_sub_empty p rest else c # re_sub_empty p cs))"
  by pat_completeness auto
termination
  by (relation "measure (\<lambda>(p, s). length s)") auto

text \<open>\<open>r"\{(\d+)\}"\<close> and \<open>r"\{\d+\}"\<close>.\<close>

definition marker_group_pattern :: "node list" where
  "marker_group_pattern = [One (Lit CHR ''{''), CapPlus Digit, One (Lit CHR ''}'')]"

definition marker_pattern :: "node list" where
  "marker_pattern = [One (Lit CHR ''{''), Plus Digit, One (Lit CHR ''}'')]"

text \<open>With one group in the pattern, \<open>re.findall\<close> returns the list of that group.\<close>

definition extract_markers :: "string \<Rightarrow> string list" where
  "extract_markers text_attr = concat (re_findall marker_group_pattern text_attr)"

definition clean_text_of :: "string \<Rightarrow> string" where
  "clean_text_of text_attr = py_strip (re_sub_empty marker_pattern text_attr)"

section \<open>Header parser\<close>

text \<open>
  Both header patterns begin with \<open>^\<close> and are used without \<open>re.MULTILINE\<close>, so
  \<open>re.search\<close> can match them at the start of the text only.
\<close>

definition re_search_anchored :: "bool \<Rightarrow> node list \<Rightarrow> string \<Rightarrow> string list option" where
  "re_search_anchored icase p s = map_option fst (rmatch icase p s [])"

definition header_prefix :: "node list" where
  "header_prefix =
     [Plus Digit, One (Lit CHR ''.''), Star Space, CapLazyPlus Dot, Plus Space] @ lits ''Name''
     @ [Star Space, One (Lit CHR ''{''), CapLazyPlus Dot, One (Lit CHR ''}''), Plus Space]"

definition braced_group :: "node list" where
  "braced_group = [Star Space, One (Lit CHR ''{''), CapLazyPlus Dot, One (Lit CHR ''}'')]"

definition simple_header_pattern :: "node list" where
  "simple_header_pattern = header_prefix @ lits ''Theme'' @ braced_group"

definition full_header_pattern :: "node list" where
  "full_header_pattern =
     header_prefix @ lits ''Historical Background'' @ braced_group
     @ [Plus Space] @ lits ''Theme'' @ [Opt (Lit CHR '':'')] @ braced_group
     @ [Plus Space] @ lits ''Topics and their Interconnection'' @ braced_group"

definition header_patterns :: "(node list \<times> string list) list" where
  "header_patterns =
     [(simple_header_pattern, [''name'', ''description'', ''theme'']),
      (full_header_pattern,
       [''name'', ''description'', ''historical_background'', ''theme'',
        ''topics_interconnection''])]"

fun try_patterns :: "(node list \<times> string list) list \<Rightarrow> string \<Rightarrow> (string \<times> string) list" where
  "try_patterns [] t = [(''raw'', t)]"
| "try_patterns ((p, keys) # ps) t =
     (case re_search_anchored True p t of
        Some groups \<Rightarrow> zip keys (map py_strip groups)
      | None \<Rightarrow> try_patterns ps t)"

definition parse_sura_info :: "string \<Rightarrow> (string \<times> string) list" where
  "parse_sura_info text_arg = try_patterns header_patterns (py_strip text_arg)"

section \<open>Python values\<close>

datatype pyval = PNone | PInt int | PStr string | PList "pyval list" | PDict "(string \<times> pyval) list"

text \<open>
  A \<open>dict\<close> is an association list in insertion order with one pair per key:
  \<open>d[k] = v\<close> is \<open>AList.update k v d\<close>, which replaces the value of a key that is there
  and otherwise adds the pair at the end, and \<open>d.get(k, default)\<close> is \<open>dict_get\<close>.
\<close>

definition dict_get :: "('k \<times> 'v) list \<Rightarrow> 'k \<Rightarrow> 'v \<Rightarrow> 'v" where
  "dict_get d k dflt = (case map_of d k of None \<Rightarrow> dflt | Some v \<Rightarrow> v)"

definition digit_char :: "nat \<Rightarrow> char" where
  "digit_char n = char_of (48 + n)"

function str_nat :: "nat \<Rightarrow> string" where
  "str_nat n = (if n < 10 then [digit_char n] else str_nat (n div 10) @ [digit_char (n mod 10)])"
  by pat_completeness auto
termination
  by (relation "measure (\<lambda>n. n)") auto

definition str_int :: "int \<Rightarrow> string" where
  "str_int i = (if i < 0 then CHR ''-'' # str_nat (nat (- i)) else str_nat (nat i))"

text \<open>
  What an f-string puts for a value. The chapter index is \<open>None\<close>, an \<open>int\<close> or a
  \<open>str\<close>; the text of a container is not modelled.
\<close>

fun py_format :: "pyval \<Rightarrow> string" where
  "py_format PNone = ''None''"
| "py_format (PInt i) = str_int i"
| "py_format (PStr s) = s"
| "py_format (PList xs) = ''[...]''"
| "py_format (PDict d) = ''{...}''"

datatype exn = ValueError string | AttributeError string | External string

definition digit_value :: "char \<Rightarrow> nat" where
  "digit_value c = codepoint c - 48"

text \<open>
  \<open>int(s)\<close> for a string of digit characters, the only strings the program converts:
  \<open>int\<close> takes the decimal digits and raises \<open>ValueError\<close> on any other character.
\<close>

definition py_int :: "string \<Rightarrow> exn + int" where
  "py_int s =
     (if s \<noteq> [] \<and> list_all py_isdecimal_char s
      then Inr (int (foldl (\<lambda>acc c. 10 * acc + digit_value c) 0 s))
      else Inl (ValueError s))"

section \<open>The parsed document\<close>

datatype element = Element (tag: string) (attrib: "(string \<times> string) list") (children: "element list")

definition attrib_get :: "element \<Rightarrow> string \<Rightarrow> string option" where
  "attrib_get e k = map_of (attrib e) k"

definition findall :: "element \<Rightarrow> string \<Rightarrow> element list" where
  "findall e t = filter (\<lambda>child. tag child = t) (children e)"

section \<open>The collaborators and the state of a run\<close>

text \<open>
  The language services, the clock and the file system are inputs of the model. A call
  that can raise returns \<open>Inl\<close> of the exception. \<open>now_isoformat\<close> gives the text of the
  n-th reading of the clock; \<open>open_and_dump\<close> tells, for a path, whether opening the
  file and writing the document to it raises.
\<close>

record nlp_doc =
  ents :: "exn + (string \<times> string) list"
  noun_chunks :: "exn + string list"

record env =
  stopwords_english :: "exn + string list"
  word_tokenize :: "string \<Rightarrow> exn + string list"
  spacy_nlp :: "string \<Rightarrow> exn + nlp_doc"
  now_isoformat :: "nat \<Rightarrow> string"
  open_and_dump :: "string \<Rightarrow> exn option"

datatype log_record =
    StartProcessing string
  | SavedSura pyval string
  | CompletedProcessing
  | ErrorProcessing string exn
  | ErrorNLP exn
  | ErrorSaving pyval exn

record run_state =
  logged :: "log_record list"
  files :: "(string \<times> pyval) list"
  clock :: nat

section \<open>Linguistic annotator\<close>

fun count_words :: "string list \<Rightarrow> (string \<times> nat) list \<Rightarrow> (string \<times> nat) list" where
  "count_words [] freq_counts = freq_counts"
| "count_words (word # ws) freq_counts =
     count_words ws (AList.update word (dict_get freq_counts word 0 + 1) freq_counts)"

text \<open>
  \<open>sorted(items, key=count, reverse=True)\<close> is a stable sort by descending count:
  items of equal count keep their order.
\<close>

definition sorted_by_count_desc :: "(string \<times> nat) list \<Rightarrow> (string \<times> nat) list" where
  "sorted_by_count_desc items = sort_key (\<lambda>item. - int (snd item)) items"

definition qualifying_words :: "string list \<Rightarrow> string list \<Rightarrow> string list" where
  "qualifying_words stop_words tokens =
     filter (\<lambda>word. py_isalpha word \<and> word \<notin> set stop_words) tokens"

definition top_frequencies :: "string list \<Rightarrow> (string \<times> nat) list" where
  "top_frequencies words =
     (if words \<noteq> [] then take 20 (sorted_by_count_desc (count_words words [])) else [])"

definition frequency_analysis :: "env \<Rightarrow> string \<Rightarrow> exn + (string list \<times> (string \<times> nat) list)" where
  "frequency_analysis e text_arg =
     (case stopwords_english e of
        Inl x \<Rightarrow> Inl x
      | Inr stop_words \<Rightarrow>
          (case word_tokenize e (py_lower text_arg) of
             Inl x \<Rightarrow> Inl x
           | Inr tokens \<Rightarrow>
               (let freq_dist = top_frequencies (qualifying_words stop_words tokens)
                in Inr (map fst freq_dist, freq_dist))))"

definition structural_analysis :: "env \<Rightarrow> string \<Rightarrow> exn + (pyval list \<times> pyval list)" where
  "structural_analysis e text_arg =
     (case spacy_nlp e text_arg of
        Inl x \<Rightarrow> Inl x
      | Inr doc \<Rightarrow>
          (case ents doc of
             Inl x \<Rightarrow> Inl x
           | Inr es \<Rightarrow>
               (case noun_chunks doc of
                  Inl x \<Rightarrow> Inl x
                | Inr cs \<Rightarrow>
                    Inr (map (\<lambda>(t, l). PDict [(''text'', PStr t), (''label'', PStr l)]) es,
                         map PStr cs))))"

text \<open>The result dictionary and what the function logged.\<close>

definition advanced_analysis :: "env \<Rightarrow> string \<Rightarrow> (string \<times> pyval) list \<times> log_record list" where
  "advanced_analysis e text_arg =
     (case frequency_analysis e text_arg of
        Inl x \<Rightarrow> ([], [ErrorNLP x])
      | Inr (keywords, freq_dist) \<Rightarrow>
          (let results =
                 [(''keywords'', PList (map PStr keywords)),
                  (''freq_dist'', PDict (map (\<lambda>(w, n). (w, PInt (int n))) freq_dist))]
           in case structural_analysis e text_arg of
                Inl x \<Rightarrow> (results, [ErrorNLP x])
              | Inr (named_entities, chunks) \<Rightarrow>
                  (AList.update ''noun_chunks'' (PList chunks)
                     (AList.update ''named_entities'' (PList named_entities) results), [])))"

section \<open>Theme tagger\<close>

text \<open>
  Each theme pattern is an alternation of words, searched for anywhere in the text.
  Nothing in the body of \<open>extract_themes\<close> can raise, so its handler is not modelled.
\<close>

fun re_search_alts :: "string list \<Rightarrow> string \<Rightarrow> bool" where
  "re_search_alts alts [] = list_ex (\<lambda>a. rmatch False (lits a) [] [] \<noteq> None) alts"
| "re_search_alts alts (c # cs) =
     (list_ex (\<lambda>a. rmatch False (lits a) (c # cs) [] \<noteq> None) alts \<or> re_search_alts alts cs)"

definition theme_patterns :: "(string \<times> string list) list" where
  "theme_patterns =
     [(''divine mercy'', [''mercy'', ''compassion'', ''forgiveness'']),
      (''prophethood'', [''prophet'', ''messenger'', ''revelation'']),
      (''law'', [''law'', ''commandment'', ''decree'']),
      (''parables'', [''parable'', ''example'', ''story''])]"

definition extract_themes :: "string \<Rightarrow> string list" where
  "extract_themes text_arg =
     map fst (filter (\<lambda>(theme, alts). re_search_alts alts (py_lower text_arg)) theme_patterns)"

section \<open>Chapter assembler\<close>

definition collect_footers :: "element \<Rightarrow> (string \<times> string) list" where
  "collect_footers sura =
     fold (\<lambda>child footer_mapping.
             case attrib_get child ''index'' of
               None \<Rightarrow> footer_mapping
             | Some f_index \<Rightarrow>
                 (case attrib_get child ''text'' of
                    None \<Rightarrow> footer_mapping
                  | Some f_text \<Rightarrow>
                      if f_index \<noteq> [] \<and> f_text \<noteq> []
                      then AList.update f_index f_text footer_mapping
                      else footer_mapping))
          (findall sura ''footer'') []"

definition link_footers :: "string list \<Rightarrow> (string \<times> string) list \<Rightarrow> (string \<times> pyval) list" where
  "link_footers markers footer_mapping =
     fold (\<lambda>marker footers.
             case map_of footer_mapping marker of
               None \<Rightarrow> footers
             | Some f_text \<Rightarrow> AList.update marker (PStr f_text) footers)
          markers []"

definition opt_str :: "string option \<Rightarrow> pyval" where
  "opt_str x = (case x of None \<Rightarrow> PNone | Some s \<Rightarrow> PStr s)"

text \<open>
  The record of one verse that is not the header, with what the annotator logged:
  \<open>n\<close> is the number of the clock reading that stamps it.
\<close>

definition aya_entry ::
  "env \<Rightarrow> (string \<times> string) list \<Rightarrow> string option \<Rightarrow> string \<Rightarrow> nat \<Rightarrow>
   (string \<times> pyval) list \<times> log_record list" where
  "aya_entry e footer_mapping aya_index text_attr n =
     (let markers = extract_markers text_attr;
          clean_text = clean_text_of text_attr;
          footers = link_footers markers footer_mapping;
          (advanced_results, msgs) = advanced_analysis e clean_text;
          analysis =
            AList.update ''advanced_analysis_timestamp'' (PStr (now_isoformat e n))
              (AList.update ''themes'' (PList (map PStr (extract_themes clean_text)))
                 advanced_results)
      in ([(''aya_index'', opt_str aya_index),
           (''raw_text'', PStr text_attr),
           (''clean_text'', PStr clean_text),
           (''markers'', PList (map PStr markers)),
           (''footers'', PDict footers),
           (''analysis'', PDict analysis)], msgs))"

text \<open>
  One turn of the loop over the verse units of a chapter. The loop carries the chapter
  information, the verse records so far and the state of the run.
\<close>

definition process_aya ::
  "env \<Rightarrow> (string \<times> string) list \<Rightarrow> element \<Rightarrow>
   (string \<times> string) list \<times> pyval list \<times> run_state \<Rightarrow>
   (string \<times> string) list \<times> pyval list \<times> run_state" where
  "process_aya e footer_mapping aya acc =
     (case acc of (sura_info, aya_entries, st) \<Rightarrow>
        (case attrib_get aya ''text'' of
           None \<Rightarrow> acc
         | Some text_attr \<Rightarrow>
             if text_attr = [] then acc
             else if attrib_get aya ''index'' = Some ''0''
             then (parse_sura_info text_attr, aya_entries, st)
             else (case aya_entry e footer_mapping (attrib_get aya ''index'') text_attr (clock st) of
                     (entry, msgs) \<Rightarrow>
                       (sura_info, aya_entries @ [PDict entry],
                        st\<lparr>logged := logged st @ msgs, clock := Suc (clock st)\<rparr>))))"

text \<open>
  \<open>int(sura_index) if sura_index and sura_index.isdigit() else sura_index\<close>
\<close>

definition coerce_index :: "string option \<Rightarrow> exn + pyval" where
  "coerce_index sura_index =
     (case sura_index of
        None \<Rightarrow> Inr PNone
      | Some s \<Rightarrow>
          if s \<noteq> [] \<and> py_isdigit s
          then (case py_int s of Inl x \<Rightarrow> Inl x | Inr i \<Rightarrow> Inr (PInt i))
          else Inr (PStr s))"

section \<open>Persister\<close>

definition output_dir :: string where
  "output_dir = ''output''"

definition file_name :: "pyval \<Rightarrow> string" where
  "file_name sura_index = ''sura_'' @ py_format sura_index @ ''.json''"

definition output_path :: "pyval \<Rightarrow> string" where
  "output_path sura_index = output_dir @ ''/'' @ file_name sura_index"

text \<open>
  The handler of \<open>save_sura_analysis\<close> catches what opening and writing the file raise.
  A write that succeeds replaces the document at the path.
\<close>

definition save_sura_analysis :: "env \<Rightarrow> (string \<times> pyval) list \<Rightarrow> run_state \<Rightarrow> run_state" where
  "save_sura_analysis e sura_analysis st =
     (let sura_index = dict_get sura_analysis ''sura_index'' (PStr ''unknown'');
          output_file = output_path sura_index
      in case open_and_dump e output_file of
           None \<Rightarrow>
             st\<lparr>logged := logged st @ [SavedSura sura_index output_file],
                files := AList.update output_file (PDict sura_analysis) (files st)\<rparr>
         | Some x \<Rightarrow>
             st\<lparr>logged := logged st @ [ErrorSaving (dict_get sura_analysis ''sura_index'' PNone) x]\<rparr>)"

section \<open>The run\<close>

text \<open>
  One chapter: the exception that left the loop body, if one did, and the state after.
\<close>

definition process_sura :: "env \<Rightarrow> string \<Rightarrow> element \<Rightarrow> run_state \<Rightarrow> exn option \<times> run_state" where
  "process_sura e qurantafseer_name sura st =
     (let footer_mapping = collect_footers sura in
      case fold (process_aya e footer_mapping) (findall sura ''aya'') ([], [], st) of
        (sura_info, aya_entries, st1) \<Rightarrow>
          (case coerce_index (attrib_get sura ''index'') of
             Inl x \<Rightarrow> (Some x, st1)
           | Inr idx \<Rightarrow>
               (let sura_output =
                      [(''qurantafseer'', PStr qurantafseer_name),
                       (''sura_index'', idx),
                       (''sura_info'', PDict (map (\<lambda>(k, v). (k, PStr v)) sura_info)),
                       (''ayah'', PList aya_entries),
                       (''metadata'',
                        PDict [(''processed_timestamp'', PStr (now_isoformat e (clock st1))),
                               (''version'', PStr ''2.0'')])]
                in (None, save_sura_analysis e sura_output (st1\<lparr>clock := Suc (clock st1)\<rparr>)))))"

fun process_suras :: "env \<Rightarrow> string \<Rightarrow> element list \<Rightarrow> run_state \<Rightarrow> exn option \<times> run_state" where
  "process_suras e qurantafseer_name [] st = (None, st)"
| "process_suras e qurantafseer_name (sura # rest) st =
     (case process_sura e qurantafseer_name sura st of
        (Some x, st1) \<Rightarrow> (Some x, st1)
      | (None, st1) \<Rightarrow> process_suras e qurantafseer_name rest st1)"

text \<open>
  \<open>parsed\<close> is what the recovering parser gave for the file: an exception, no root, or
  the root element. The result is the exception the function raises, if any, and the
  state after the run.
\<close>

definition process_tafsir_file ::
  "env \<Rightarrow> string \<Rightarrow> exn + element option \<Rightarrow> run_state \<Rightarrow> exn option \<times> run_state" where
  "process_tafsir_file e file_path parsed st =
     (let st0 = st\<lparr>logged := logged st @ [StartProcessing file_path]\<rparr>;
          outcome =
            (case parsed of
               Inl x \<Rightarrow> (Some x, st0)
             | Inr None \<Rightarrow> (Some (AttributeError ''attrib''), st0)
             | Inr (Some root) \<Rightarrow>
                 process_suras e (dict_get (attrib root) ''name'' ''Unknown'')
                   (findall root ''sura'') st0)
      in case outcome of
           (Some x, st1) \<Rightarrow> (Some x, st1\<lparr>logged := logged st1 @ [ErrorProcessing file_path x]\<rparr>)
         | (None, st1) \<Rightarrow> (None, st1\<lparr>logged := logged st1 @ [CompletedProcessing]\<rparr>))"

section \<open>Reading a verse record\<close>

definition entry_list :: "(string \<times> pyval) list \<Rightarrow> string \<Rightarrow> pyval list" where
  "entry_list d k = (case map_of d k of Some (PList xs) \<Rightarrow> xs | _ \<Rightarrow> [])"

definition entry_dict :: "(string \<times> pyval) list \<Rightarrow> string \<Rightarrow> (string \<times> pyval) list" where
  "entry_dict d k = (case map_of d k of Some (PDict xs) \<Rightarrow> xs | _ \<Rightarrow> [])"

definition entry_themes :: "(string \<times> pyval) list \<Rightarrow> pyval list" where
  "entry_themes entry = entry_list (entry_dict entry ''analysis'') ''themes''"

section \<open>Stub collaborators for examples\<close>

fun split_on_space :: "string \<Rightarrow> string \<Rightarrow> string list" where
  "split_on_space cur [] = (if cur = [] then [] else [cur])"
| "split_on_space cur (c # cs) =
     (if py_isspace_char c then (if cur = [] then [] else [cur]) @ split_on_space [] cs
      else split_on_space (cur @ [c]) cs)"

definition stub_env :: env where
  "stub_env =
     \<lparr>stopwords_english = Inr [''he'', ''is'', ''and'', ''a''],
      word_tokenize = (\<lambda>s. Inr (split_on_space [] s)),
      spacy_nlp = (\<lambda>s. Inr \<lparr>ents = Inr [], noun_chunks = Inr []\<rparr>),
      now_isoformat = (\<lambda>n. ''T'' @ str_nat n),
      open_and_dump = (\<lambda>p. None)\<rparr>"

definition initial_state :: run_state where
  "initial_state = \<lparr>logged = [], files = [], clock = 0\<rparr>"


definition failing_disk_env :: env where
  "failing_disk_env = stub_env\<lparr>open_and_dump := (\<lambda>p. Some (External ''disk''))\<rparr>"



text \<open>
  A document of three chapters: the first with one verse, the second with the
  superscript two as its index, the third empty.
\<close>

definition first_sura :: element where
  "first_sura =
     Element ''sura'' [(''index'', ''1'')]
       [Element ''aya'' [(''index'', ''1''), (''text'', ''mercy {1}'')] []]"

definition second_sura :: element where
  "second_sura = Element ''sura'' [(''index'', [CHR 0xB2])] []"

definition third_sura :: element where
  "third_sura = Element ''sura'' [(''index'', ''3'')] []"

definition example_root :: element where
  "example_root =
     Element ''qurantafseer'' [(''name'', ''M'')] [first_sura, second_sura, third_sura]"

section \<open>The marker patterns at one position\<close>

text \<open>
  What the two marker patterns match at the start of a text, as the digits between the
  braces and the text after the closing brace; and the digits as a list of at most one
  element.
\<close>

definition marker_prefix :: "string \<Rightarrow> (string \<times> string) option" where
  "marker_prefix s =
     (case s of
        [] \<Rightarrow> None
      | c # cs \<Rightarrow>
          if c = CHR ''{''
          then (let n = run False Digit cs
                in if 0 < n \<and> n < length cs \<and> cs ! n = CHR ''}''
                   then Some (take n cs, drop (Suc n) cs) else None)
          else None)"

definition marker_here :: "string \<Rightarrow> string list" where
  "marker_here s = (case marker_prefix s of None \<Rightarrow> [] | Some (d, r) \<Rightarrow> [d])"

section \<open>Markers, as the specification words them\<close>

text \<open>
  A marker with \<open>k\<close> digits stands at position \<open>i\<close> of the text: an opening brace, \<open>k\<close>
  decimal digits (at least one) and a closing brace.
\<close>

definition marker_at :: "string \<Rightarrow> nat \<Rightarrow> nat \<Rightarrow> bool" where
  "marker_at raw i k =
     (0 < k \<and> i + k + 1 < length raw \<and> raw ! i = CHR ''{''
      \<and> list_all py_isdecimal_char (take k (drop (Suc i) raw))
      \<and> raw ! (i + k + 1) = CHR ''}'')"

text \<open>The integers of all markers of the text, by position.\<close>

definition spec_markers :: "string \<Rightarrow> string list" where
  "spec_markers raw =
     concat (map (\<lambda>i. map (\<lambda>k. take k (drop (Suc i) raw))
                        (filter (marker_at raw i) [1 ..< length raw]))
                 [0 ..< length raw])"

text \<open>Position \<open>p\<close> of the text lies inside a marker.\<close>

definition covered :: "string \<Rightarrow> nat \<Rightarrow> bool" where
  "covered raw p =
     list_ex (\<lambda>i. list_ex (\<lambda>k. marker_at raw i k \<and> p \<le> i + k + 1) [1 ..< length raw])
             [0 ..< Suc p]"

text \<open>The text with every marker removed.\<close>

definition spec_remove_markers :: "string \<Rightarrow> string" where
  "spec_remove_markers raw =
     map (\<lambda>p. raw ! p) (filter (\<lambda>p. \<not> covered raw p) [0 ..< length raw])"

definition has_marker :: "string \<Rightarrow> bool" where
  "has_marker s = list_ex (\<lambda>i. list_ex (marker_at s i) [1 ..< length s]) [0 ..< length s]"

text \<open>Every opening brace of the text begins a marker.\<close>

definition braces_open_markers :: "string \<Rightarrow> bool" where
  "braces_open_markers raw =
     list_all (\<lambda>i. raw ! i = CHR ''{'' \<longrightarrow> list_ex (marker_at raw i) [1 ..< length raw])
              [0 ..< length raw]"

section \<open>Word frequencies, as the specification words them\<close>

text \<open>The position of the first occurrence of a word in a list.\<close>

definition first_index :: "'a list \<Rightarrow> 'a \<Rightarrow> nat" where
  "first_index ws w = length (takeWhile (\<lambda>x. x \<noteq> w) ws)"

text \<open>
  The order of the keyword list: more frequent first and, at equal frequency, first
  met first.
\<close>

definition keyword_before :: "string list \<Rightarrow> string \<Rightarrow> string \<Rightarrow> bool" where
  "keyword_before ws a b =
     (count_list ws b < count_list ws a
      \<or> (count_list ws a = count_list ws b \<and> first_index ws a < first_index ws b))"

section \<open>The example verse\<close>

lemma example_markers:
  "extract_markers ''He is Merciful and a Prophet {1}'' = [''1'']"
  by code_simp

lemma example_clean_text:
  "clean_text_of ''He is Merciful and a Prophet {1}'' = ''He is Merciful and a Prophet''"
  by code_simp

lemma example_themes:
  "extract_themes ''He is Merciful and a Prophet'' = [''prophethood'']"
  by code_simp

text \<open>
  C3, as the code has it: the verse text "He is Merciful and a Prophet {1}", in a chapter
  whose footnote mapping has the key "1" with the text "commentary", gives a verse record
  with the markers ["1"], the footers {"1": "commentary"} and the themes ["prophethood"].
  The theme patterns are searched as substrings of the lower-cased clean text, and
  "merciful" contains none of "mercy", "compassion" and "forgiveness", so "divine mercy"
  is not among the themes.
\<close>

theorem example_verse_record:
  "map_of footer_mapping ''1'' = Some ''commentary'' \<Longrightarrow>
   entry_themes (fst (aya_entry e footer_mapping aya_index ''He is Merciful and a Prophet {1}'' n))
     = [PStr ''prophethood''] \<and>
   map_of (fst (aya_entry e footer_mapping aya_index ''He is Merciful and a Prophet {1}'' n))
     ''markers'' = Some (PList [PStr ''1'']) \<and>
   map_of (fst (aya_entry e footer_mapping aya_index ''He is Merciful and a Prophet {1}'' n))
     ''footers'' = Some (PDict [(''1'', PStr ''commentary'')])"
  by (simp add: aya_entry_def example_markers example_clean_text example_themes Let_def
        link_footers_def entry_themes_def entry_list_def entry_dict_def update_conv'
        split: prod.splits)

theorem example_verse_record_witness:
  "map_of [(''1'', ''commentary'')] ''1'' = Some ''commentary'' \<and>
   entry_themes (fst (aya_entry stub_env [(''1'', ''commentary'')] (Some ''1'')
       ''He is Merciful and a Prophet {1}'' 0)) = [PStr ''prophethood''] \<and>
   map_of (fst (aya_entry stub_env [(''1'', ''commentary'')] (Some ''1'')
       ''He is Merciful and a Prophet {1}'' 0)) ''markers'' = Some (PList [PStr ''1'']) \<and>
   map_of (fst (aya_entry stub_env [(''1'', ''commentary'')] (Some ''1'')
       ''He is Merciful and a Prophet {1}'' 0)) ''footers''
     = Some (PDict [(''1'', PStr ''commentary'')])"
  using example_verse_record [of "[(''1'', ''commentary'')]" stub_env "Some ''1''" 0]
  by simp

text \<open>
  The claim C3 as stated asks for "divine mercy" among the themes; the record of the
  example verse does not have it.
\<close>

theorem example_verse_lacks_divine_mercy:
  "PStr ''divine mercy'' \<notin> set (entry_themes (fst (aya_entry stub_env
       [(''1'', ''commentary'')] (Some ''1'') ''He is Merciful and a Prophet {1}'' 0)))"
  by code_simp

section \<open>Header parser\<close>

lemma header_example:
  "parse_sura_info ''1. Surah Al Fatihah Name {The Opening} Theme {Divine Mercy}'' =
     [(''name'', ''Surah Al Fatihah''), (''description'', ''The Opening''),
      (''theme'', ''Divine Mercy'')]"
  by code_simp

text \<open>
  C4, as the code has it: the header "1. Surah Al Fatihah Name {The Opening} Theme
  {Divine Mercy}" parses to name "Surah Al Fatihah", description "The Opening" and theme
  "Divine Mercy"; and a header whose text, once leading and trailing whitespace is
  trimmed, matches neither template parses to the single field raw, holding the trimmed
  text. The parser is a total function: it has no error outcome.
\<close>

theorem header_parser_result:
  "parse_sura_info ''1. Surah Al Fatihah Name {The Opening} Theme {Divine Mercy}'' =
     [(''name'', ''Surah Al Fatihah''), (''description'', ''The Opening''),
      (''theme'', ''Divine Mercy'')]
   \<and> (re_search_anchored True simple_header_pattern (py_strip t) = None
        \<and> re_search_anchored True full_header_pattern (py_strip t) = None
      \<longrightarrow> parse_sura_info t = [(''raw'', py_strip t)])"
  by (simp add: header_example) (simp add: parse_sura_info_def header_patterns_def)

theorem header_parser_result_witness:
  "re_search_anchored True simple_header_pattern (py_strip '' random unrelated string '') = None
   \<and> re_search_anchored True full_header_pattern (py_strip '' random unrelated string '') = None
   \<and> parse_sura_info '' random unrelated string '' = [(''raw'', ''random unrelated string'')]"
proof -
  have a: "re_search_anchored True simple_header_pattern
             (py_strip '' random unrelated string '') = None"
    by code_simp
  have b: "re_search_anchored True full_header_pattern
             (py_strip '' random unrelated string '') = None"
    by code_simp
  have c: "py_strip '' random unrelated string '' = ''random unrelated string''"
    by code_simp
  from header_parser_result [of "'' random unrelated string ''"] a b c
  show ?thesis by simp
qed

text \<open>
  The claim C4 as stated gives the original text in the field raw. A header text with a
  leading space that matches no template comes back without the space.
\<close>

theorem header_fallback_is_trimmed:
  "re_search_anchored True simple_header_pattern '' x'' = None
   \<and> re_search_anchored True full_header_pattern '' x'' = None
   \<and> parse_sura_info '' x'' \<noteq> [(''raw'', '' x'')]"
  by code_simp

section \<open>Chapter index and file name\<close>

lemma unindexed_chapter_written_as_None:
  "attrib_get sura ''index'' = None \<Longrightarrow> open_and_dump e ''output/sura_None.json'' = None \<Longrightarrow>
   map_of (files (snd (process_sura e q sura st))) ''output/sura_None.json'' \<noteq> None
   \<and> last (logged (snd (process_sura e q sura st))) = SavedSura PNone ''output/sura_None.json''"
  by (simp add: process_sura_def coerce_index_def save_sura_analysis_def dict_get_def Let_def
        output_path_def output_dir_def file_name_def update_conv' split: prod.splits)

text \<open>
  C5 asks for the file name sura_unknown.json when the chapter element has no index
  attribute. The assembler always stores the key sura_index in the chapter record, with
  the value \<open>None\<close> when the attribute is missing, so the default "unknown" of the
  persister's lookup is never taken: the one file written for such a chapter is
  sura_None.json.
\<close>

theorem unindexed_chapter_file:
  "map fst (files (snd (process_tafsir_file stub_env ''data/maududi-tafsir.xml''
      (Inr (Some (Element ''qurantafseer'' [(''name'', ''M'')] [Element ''sura'' [] []])))
      initial_state))) = [''output/sura_None.json'']"
  by code_simp

lemma py_isdecimal_isdigit: "py_isdecimal_char c \<Longrightarrow> py_isdigit_char c"
  by (simp add: py_isdecimal_char_def py_isdigit_char_def Let_def)

lemma coerce_index_decimal:
  "s \<noteq> [] \<Longrightarrow> list_all py_isdecimal_char s \<Longrightarrow>
   coerce_index (Some s) = Inr (PInt (int (foldl (\<lambda>acc c. 10 * acc + digit_value c) 0 s)))"
  by (auto simp add: coerce_index_def py_int_def py_isdigit_def list_all_iff
        py_isdecimal_isdigit)

lemma coerce_index_not_digits:
  "\<not> py_isdigit s \<Longrightarrow> coerce_index (Some s) = Inr (PStr s)"
  by (auto simp add: coerce_index_def)

lemma index_2_file:
  "coerce_index (Some ''2'') = Inr (PInt 2) \<and> file_name (PInt 2) = ''sura_2.json''"
  by code_simp

lemma index_range_file:
  "coerce_index (Some ''1-3'') = Inr (PStr ''1-3'') \<and> file_name (PStr ''1-3'') = ''sura_1-3.json''"
  by code_simp

text \<open>
  C8 asks that an index made of digits be written as the integer and any other index be
  kept as the string. The code tests the index with \<open>isdigit\<close> and converts it with
  \<open>int\<close>. The two agree on the decimal digits, and an index that \<open>isdigit\<close> rejects is
  kept; but \<open>isdigit\<close> also accepts the superscript digits, which \<open>int\<close> refuses: for the
  index made of the superscript two the conversion raises \<open>ValueError\<close>, no record is
  written and the exception leaves the chapter.
\<close>

theorem superscript_index_raises:
  "process_sura stub_env ''M'' (Element ''sura'' [(''index'', [CHR 0xB2])] []) initial_state
     = (Some (ValueError [CHR 0xB2]), initial_state)"
  by code_simp

section \<open>Units with empty attributes\<close>

text \<open>
  C10: a verse unit whose text attribute is empty is skipped as one without the
  attribute is: the loop state (chapter information, verse records, state of the run) is
  unchanged, whatever the index of the unit, so no record is added and the header parser
  is not called. A footnote unit whose index or text is empty leaves the footnote
  mapping of the chapter as it is without the unit.
\<close>

theorem empty_attributes_skipped:
  "(attrib_get u ''text'' = Some [] \<or> attrib_get u ''text'' = None
      \<longrightarrow> process_aya e fm u acc = acc)
   \<and> (attrib_get f ''index'' = Some [] \<or> attrib_get f ''text'' = Some []
      \<longrightarrow> collect_footers (Element t a (pre @ f # post))
          = collect_footers (Element t a (pre @ post)))"
  by (auto simp add: process_aya_def collect_footers_def findall_def
        split: prod.splits option.splits)

theorem empty_attributes_skipped_witness:
  "attrib_get (Element ''aya'' [(''index'', ''0''), (''text'', [])] []) ''text'' = Some []
   \<and> process_aya stub_env [] (Element ''aya'' [(''index'', ''0''), (''text'', [])] [])
        ([(''raw'', ''h'')], [], initial_state) = ([(''raw'', ''h'')], [], initial_state)
   \<and> attrib_get (Element ''footer'' [(''index'', []), (''text'', ''note'')] []) ''index'' = Some []
   \<and> collect_footers (Element ''sura'' []
        ([Element ''footer'' [(''index'', ''1''), (''text'', ''one'')] []]
         @ Element ''footer'' [(''index'', []), (''text'', ''note'')] [] # []))
      = [(''1'', ''one'')]"
proof -
  have a: "attrib_get (Element ''aya'' [(''index'', ''0''), (''text'', [])] []) ''text'' = Some []"
    by (simp add: attrib_get_def)
  have b: "attrib_get (Element ''footer'' [(''index'', []), (''text'', ''note'')] []) ''index''
             = Some []"
    by (simp add: attrib_get_def)
  have c: "collect_footers (Element ''sura'' []
             ([Element ''footer'' [(''index'', ''1''), (''text'', ''one'')] []] @ []))
           = [(''1'', ''one'')]"
    by code_simp
  from empty_attributes_skipped
         [of "Element ''aya'' [(''index'', ''0''), (''text'', [])] []" stub_env "[]"
             "([(''raw'', ''h'')], [], initial_state)"
             "Element ''footer'' [(''index'', []), (''text'', ''note'')] []"
             "''sura''" "[]" "[Element ''footer'' [(''index'', ''1''), (''text'', ''one'')] []]"
             "[]"] a b c
  show ?thesis by simp
qed

section \<open>Footnote linking\<close>

lemma link_fold_map_of:
  "map_of (fold (\<lambda>marker footers. case map_of fm marker of None \<Rightarrow> footers
                | Some f_text \<Rightarrow> AList.update marker (PStr f_text) footers) ms acc) m =
   (if m \<in> set ms \<and> map_of fm m \<noteq> None then map_option PStr (map_of fm m) else map_of acc m)"
  by (induction ms arbitrary: acc) (auto simp add: update_conv' split: option.splits)

lemma link_fold_distinct:
  "distinct (map fst acc) \<Longrightarrow>
   distinct (map fst (fold (\<lambda>marker footers. case map_of fm marker of None \<Rightarrow> footers
                | Some f_text \<Rightarrow> AList.update marker (PStr f_text) footers) ms acc))"
  by (induction ms arbitrary: acc) (auto simp add: distinct_update split: option.splits)

lemma link_footers_map_of:
  "map_of (link_footers ms fm) m = (if m \<in> set ms then map_option PStr (map_of fm m) else None)"
  by (auto simp add: link_footers_def link_fold_map_of)

lemma link_footers_distinct: "distinct (map fst (link_footers ms fm))"
  by (simp add: link_footers_def link_fold_distinct)

lemma aya_entry_markers:
  "entry_list (fst (aya_entry e fm idx txt n)) ''markers'' = map PStr (extract_markers txt)"
  by (simp add: aya_entry_def Let_def entry_list_def split: prod.splits)

lemma aya_entry_footers:
  "entry_dict (fst (aya_entry e fm idx txt n)) ''footers'' = link_footers (extract_markers txt) fm"
  by (simp add: aya_entry_def Let_def entry_dict_def split: prod.splits)

lemma in_keys_map_of: "(k \<in> fst ` set al) = (map_of al k \<noteq> None)"
  by (simp add: map_of_eq_None_iff)

text \<open>
  C2: in the record of a verse, the footers mapping has an entry for a marker key \<open>m\<close>
  exactly when \<open>m\<close> is in the markers sequence of the record and is a key of the footnote
  mapping of the chapter. The footers mapping has each key once, however often the
  marker occurs, and the entry of \<open>m\<close> is the footnote text of \<open>m\<close>. Linking is a total
  function: it has no error outcome.
\<close>

theorem footers_iff_marker_and_footnote:
  "((m \<in> fst ` set (entry_dict (fst (aya_entry e fm idx txt n)) ''footers''))
      = (PStr m \<in> set (entry_list (fst (aya_entry e fm idx txt n)) ''markers'')
         \<and> m \<in> fst ` set fm))
   \<and> distinct (map fst (entry_dict (fst (aya_entry e fm idx txt n)) ''footers''))
   \<and> (m \<in> fst ` set (entry_dict (fst (aya_entry e fm idx txt n)) ''footers'') \<longrightarrow>
        map_of (entry_dict (fst (aya_entry e fm idx txt n)) ''footers'') m
          = map_option PStr (map_of fm m))"
  by (auto simp add: aya_entry_markers aya_entry_footers link_footers_distinct in_keys_map_of
        link_footers_map_of)

theorem footers_iff_marker_and_footnote_witness:
  "entry_dict (fst (aya_entry stub_env [(''1'', ''one''), (''3'', ''three'')] (Some ''5'')
       ''a {1} b {2} c {1}'' 0)) ''footers'' = [(''1'', PStr ''one'')]
   \<and> ''1'' \<in> fst ` set (entry_dict (fst (aya_entry stub_env [(''1'', ''one''), (''3'', ''three'')]
       (Some ''5'') ''a {1} b {2} c {1}'' 0)) ''footers'')
   \<and> map_of (entry_dict (fst (aya_entry stub_env [(''1'', ''one''), (''3'', ''three'')]
       (Some ''5'') ''a {1} b {2} c {1}'' 0)) ''footers'') ''1''
       = map_option PStr (map_of [(''1'', ''one''), (''3'', ''three'')] ''1'')"
proof -
  have a: "entry_dict (fst (aya_entry stub_env [(''1'', ''one''), (''3'', ''three'')] (Some ''5'')
             ''a {1} b {2} c {1}'' 0)) ''footers'' = [(''1'', PStr ''one'')]"
    by code_simp
  from a footers_iff_marker_and_footnote
           [of "''1''" stub_env "[(''1'', ''one''), (''3'', ''three'')]" "Some ''5''"
               "''a {1} b {2} c {1}''" 0]
  show ?thesis by simp
qed

section \<open>Failures of the annotator\<close>










section \<open>Keywords\<close>

lemma count_words_snoc:
  "count_words (ws @ [w]) fc =
     AList.update w (dict_get (count_words ws fc) w 0 + 1) (count_words ws fc)"
  by (induction ws arbitrary: fc) simp_all

lemma first_index_snoc_old: "a \<in> set ws \<Longrightarrow> first_index (ws @ [w]) a = first_index ws a"
  by (simp add: first_index_def)

lemma first_index_less: "a \<in> set ws \<Longrightarrow> first_index ws a < length ws"
  unfolding first_index_def by (induction ws) auto

lemma first_index_snoc_new: "w \<notin> set ws \<Longrightarrow> first_index (ws @ [w]) w = length ws"
proof -
  assume "w \<notin> set ws"
  then have "\<And>x. x \<in> set ws \<Longrightarrow> x \<noteq> w" by auto
  then have "takeWhile (\<lambda>x. x \<noteq> w) (ws @ [w]) = ws @ takeWhile (\<lambda>x. x \<noteq> w) [w]"
    by (rule takeWhile_append2)
  then show ?thesis by (simp add: first_index_def)
qed

lemma count_words_inv:
  "distinct (map fst (count_words ws []))
   \<and> set (map fst (count_words ws [])) = set ws
   \<and> (\<forall>w. map_of (count_words ws []) w = (if w \<in> set ws then Some (count_list ws w) else None))
   \<and> sorted_wrt (\<lambda>a b. first_index ws a < first_index ws b) (map fst (count_words ws []))"
proof (induction ws rule: rev_induct)
  case Nil
  then show ?case by simp
next
  case (snoc w ws)
  let ?fc = "count_words ws []"
  have d: "distinct (map fst ?fc)" and s: "set (map fst ?fc) = set ws"
    and m: "\<And>v. map_of ?fc v = (if v \<in> set ws then Some (count_list ws v) else None)"
    and o: "sorted_wrt (\<lambda>a b. first_index ws a < first_index ws b) (map fst ?fc)"
    using snoc by auto
  have eq: "count_words (ws @ [w]) [] = AList.update w (dict_get ?fc w 0 + 1) ?fc"
    by (rule count_words_snoc)
  have c1: "distinct (map fst (count_words (ws @ [w]) []))"
    unfolding eq using d by (simp add: distinct_update)
  have c2: "set (map fst (count_words (ws @ [w]) [])) = set (ws @ [w])"
    unfolding eq using s by (auto simp add: dom_update)
  have c3: "\<And>v. map_of (count_words (ws @ [w]) []) v
               = (if v \<in> set (ws @ [w]) then Some (count_list (ws @ [w]) v) else None)"
    unfolding eq by (auto simp add: update_conv' m dict_get_def)
  have o': "sorted_wrt (\<lambda>a b. first_index (ws @ [w]) a < first_index (ws @ [w]) b) (map fst ?fc)"
    using o
  proof (rule sorted_wrt_mono_rel [rotated])
    fix x y assume "x \<in> set (map fst ?fc)" "y \<in> set (map fst ?fc)"
      and "first_index ws x < first_index ws y"
    then show "first_index (ws @ [w]) x < first_index (ws @ [w]) y"
      unfolding s by (simp add: first_index_snoc_old)
  qed
  have c4: "sorted_wrt (\<lambda>a b. first_index (ws @ [w]) a < first_index (ws @ [w]) b)
              (map fst (count_words (ws @ [w]) []))"
  proof (cases "w \<in> set ws")
    case True
    then have "w \<in> fst ` set ?fc" using s by simp
    then have k: "map fst (AList.update w (dict_get ?fc w 0 + 1) ?fc) = map fst ?fc"
      by (simp add: update_keys)
    show ?thesis unfolding eq k by (rule o')
  next
    case False
    then have "w \<notin> fst ` set ?fc" using s by simp
    then have k: "map fst (AList.update w (dict_get ?fc w 0 + 1) ?fc) = map fst ?fc @ [w]"
      by (simp add: update_keys)
    have "\<And>a. a \<in> set (map fst ?fc) \<Longrightarrow> first_index (ws @ [w]) a < first_index (ws @ [w]) w"
      unfolding s using False
      by (simp add: first_index_snoc_old first_index_snoc_new first_index_less)
    then show ?thesis unfolding eq k using o' by (simp add: sorted_wrt_append del: set_map)
  qed
  from c1 c2 c3 c4 show ?case by blast
qed


lemma insort_key_sorted_wrt:
  fixes f :: "'a \<Rightarrow> 'b::linorder"
  assumes "sorted_wrt (\<lambda>a b. f a < f b \<or> (f a = f b \<and> Q a b)) ys"
    and "\<And>y. y \<in> set ys \<Longrightarrow> Q x y"
  shows "sorted_wrt (\<lambda>a b. f a < f b \<or> (f a = f b \<and> Q a b)) (insort_key f x ys)"
  using assms
proof (induction ys)
  case Nil
  then show ?case by simp
next
  case (Cons y ys)
  show ?case
  proof (cases "f x \<le> f y")
    case True
    have "\<And>z. z \<in> set ys \<Longrightarrow> f y \<le> f z" using Cons.prems(1) by auto
    then have "\<And>z. z \<in> set (y # ys) \<Longrightarrow> f x \<le> f z" using True by (auto intro: order_trans)
    then have "\<And>z. z \<in> set (y # ys) \<Longrightarrow> f x < f z \<or> (f x = f z \<and> Q x z)"
      using Cons.prems(2) by (meson le_less)
    then show ?thesis using True Cons.prems(1) by simp
  next
    case False
    have ih: "sorted_wrt (\<lambda>a b. f a < f b \<or> (f a = f b \<and> Q a b)) (insort_key f x ys)"
      using Cons by simp
    show ?thesis using False ih Cons.prems(1) by (auto simp add: set_insort_key)
  qed
qed

lemma sort_key_sorted_wrt:
  fixes f :: "'a \<Rightarrow> 'b::linorder"
  assumes "sorted_wrt Q xs"
  shows "sorted_wrt (\<lambda>a b. f a < f b \<or> (f a = f b \<and> Q a b)) (sort_key f xs)"
  using assms
proof (induction xs)
  case Nil
  then show ?case by simp
next
  case (Cons x xs)
  have "sorted_wrt (\<lambda>a b. f a < f b \<or> (f a = f b \<and> Q a b)) (insort_key f x (sort_key f xs))"
  proof (rule insort_key_sorted_wrt)
    show "sorted_wrt (\<lambda>a b. f a < f b \<or> (f a = f b \<and> Q a b)) (sort_key f xs)"
      using Cons by simp
    show "\<And>y. y \<in> set (sort_key f xs) \<Longrightarrow> Q x y" using Cons.prems by simp
  qed
  then show ?case by simp
qed

lemma count_words_item:
  "(w, c) \<in> set (count_words ws []) \<Longrightarrow> c = count_list ws w \<and> w \<in> set ws"
proof -
  assume a: "(w, c) \<in> set (count_words ws [])"
  have "distinct (map fst (count_words ws []))" using count_words_inv by blast
  with a have "map_of (count_words ws []) w = Some c" by simp
  moreover have "map_of (count_words ws []) w
                   = (if w \<in> set ws then Some (count_list ws w) else None)"
    using count_words_inv by blast
  ultimately show ?thesis by (auto split: if_splits)
qed

lemma sorted_counts_order:
  "sorted_wrt (\<lambda>a b. keyword_before ws (fst a) (fst b)) (sorted_by_count_desc (count_words ws []))"
proof -
  let ?items = "count_words ws []"
  let ?f = "\<lambda>item :: string \<times> nat. - int (snd item)"
  let ?Q = "\<lambda>a b :: string \<times> nat. first_index ws (fst a) < first_index ws (fst b)"
  have "sorted_wrt ?Q ?items"
    using count_words_inv [of ws] by (simp add: sorted_wrt_map)
  then have "sorted_wrt (\<lambda>a b. ?f a < ?f b \<or> (?f a = ?f b \<and> ?Q a b)) (sort_key ?f ?items)"
    by (rule sort_key_sorted_wrt)
  then show ?thesis
    unfolding sorted_by_count_desc_def
  proof (rule sorted_wrt_mono_rel [rotated])
    fix a b assume "a \<in> set (sort_key ?f ?items)" "b \<in> set (sort_key ?f ?items)"
      and r: "?f a < ?f b \<or> (?f a = ?f b \<and> ?Q a b)"
    then have "snd a = count_list ws (fst a)" "snd b = count_list ws (fst b)"
      using count_words_item [of "fst a" "snd a" ws] count_words_item [of "fst b" "snd b" ws]
      by simp_all
    with r show "keyword_before ws (fst a) (fst b)"
      by (auto simp add: keyword_before_def)
  qed
qed

lemma top_frequencies_props:
  "length (top_frequencies ws) \<le> 20
   \<and> sorted_wrt (keyword_before ws) (map fst (top_frequencies ws))
   \<and> distinct (map fst (top_frequencies ws))
   \<and> set (map fst (top_frequencies ws)) \<subseteq> set ws
   \<and> top_frequencies ws = map (\<lambda>w. (w, count_list ws w)) (map fst (top_frequencies ws))
   \<and> (\<forall>k \<in> set (map fst (top_frequencies ws)).
        \<forall>w \<in> set ws - set (map fst (top_frequencies ws)). keyword_before ws k w)"
proof (cases "ws = []")
  case True
  then show ?thesis by (simp add: top_frequencies_def)
next
  case False
  let ?srt = "sorted_by_count_desc (count_words ws [])"
  have tf: "top_frequencies ws = take 20 ?srt" using False by (simp add: top_frequencies_def)
  have so: "sorted_wrt (\<lambda>a b. keyword_before ws (fst a) (fst b)) ?srt"
    by (rule sorted_counts_order)
  have st: "set ?srt = set (count_words ws [])" by (simp add: sorted_by_count_desc_def)
  have di: "distinct (map fst ?srt)"
    using count_words_inv [of ws]
    by (simp add: sorted_by_count_desc_def distinct_map inj_on_def)
  have l: "length (take 20 ?srt) \<le> 20" by simp
  have s1: "sorted_wrt (keyword_before ws) (map fst (take 20 ?srt))"
    using so by (simp add: sorted_wrt_map sorted_wrt_take)
  have d1: "distinct (map fst (take 20 ?srt))"
    using di by (simp add: take_map [symmetric])
  have sub: "set (map fst (take 20 ?srt)) \<subseteq> set ws"
    using st count_words_item [of _ _ ws] by (auto dest!: in_set_takeD)
  have items: "\<And>a. a \<in> set ?srt \<Longrightarrow> a = (fst a, count_list ws (fst a))"
    using st count_words_item [of _ _ ws] by (metis prod.collapse)
  have m1: "take 20 ?srt = map (\<lambda>w. (w, count_list ws w)) (map fst (take 20 ?srt))"
    using items by (auto simp add: map_idI dest!: in_set_takeD intro!: map_idI [symmetric])
  have "sorted_wrt (\<lambda>a b. keyword_before ws (fst a) (fst b)) (take 20 ?srt @ drop 20 ?srt)"
    using so by simp
  then have cross: "\<And>a b. a \<in> set (take 20 ?srt) \<Longrightarrow> b \<in> set (drop 20 ?srt)
                 \<Longrightarrow> keyword_before ws (fst a) (fst b)"
    unfolding sorted_wrt_append by blast
  have keys: "fst ` set ?srt = set ws" using st count_words_inv [of ws] by simp
  have rest: "\<And>w. w \<in> set ws \<Longrightarrow> w \<notin> fst ` set (take 20 ?srt) \<Longrightarrow> w \<in> fst ` set (drop 20 ?srt)"
  proof -
    fix w assume "w \<in> set ws" "w \<notin> fst ` set (take 20 ?srt)"
    then have "w \<in> fst ` set (take 20 ?srt @ drop 20 ?srt)" using keys by simp
    then show "w \<in> fst ` set (drop 20 ?srt)"
      using \<open>w \<notin> fst ` set (take 20 ?srt)\<close> by (auto simp del: append_take_drop_id)
  qed
  have top: "\<forall>k \<in> set (map fst (take 20 ?srt)).
        \<forall>w \<in> set ws - set (map fst (take 20 ?srt)). keyword_before ws k w"
  proof (intro ballI)
    fix k w assume k: "k \<in> set (map fst (take 20 ?srt))"
      and w: "w \<in> set ws - set (map fst (take 20 ?srt))"
    from k obtain a where a: "a \<in> set (take 20 ?srt)" "k = fst a" by auto
    from w have "w \<in> fst ` set (drop 20 ?srt)" using rest by simp
    then obtain b where b: "b \<in> set (drop 20 ?srt)" "w = fst b" by auto
    from cross [OF a(1) b(1)] a(2) b(2) show "keyword_before ws k w" by simp
  qed
  from l s1 d1 sub m1 top show ?thesis unfolding tf by blast
qed


text \<open>
  C7: when the stopword list and the tokenizer return, the frequency analysis returns
  too, and the keyword list \<open>kws\<close> of the analysis record has at most 20 words, none
  of them a stopword and each purely alphabetic; it has no word twice; it is ordered by
  descending frequency among the qualifying words \<open>ws\<close>, words of equal frequency in
  the order in which they were first met; a qualifying word that is left out comes
  after every keyword in that order; and the frequency distribution gives each keyword
  its count. With no qualifying word both are empty.
\<close>

theorem keyword_list_properties:
  assumes "stopwords_english e = Inr sw" and "word_tokenize e (py_lower t) = Inr tokens"
    and "ws = qualifying_words sw tokens" and "kws = map fst (top_frequencies ws)"
  shows "frequency_analysis e t = Inr (kws, map (\<lambda>w. (w, count_list ws w)) kws)
    \<and> map_of (fst (advanced_analysis e t)) ''keywords'' = Some (PList (map PStr kws))
    \<and> map_of (fst (advanced_analysis e t)) ''freq_dist''
        = Some (PDict (map (\<lambda>w. (w, PInt (int (count_list ws w)))) kws))
    \<and> length kws \<le> 20
    \<and> (\<forall>w \<in> set kws. w \<notin> set sw \<and> py_isalpha w)
    \<and> distinct kws
    \<and> sorted_wrt (keyword_before ws) kws
    \<and> (\<forall>k \<in> set kws. \<forall>w \<in> set ws - set kws. keyword_before ws k w)
    \<and> (ws = [] \<longrightarrow> kws = [])"
proof -
  have tf: "top_frequencies ws = map (\<lambda>w. (w, count_list ws w)) kws"
    using top_frequencies_props [of ws] assms(4) by simp
  have fa: "frequency_analysis e t = Inr (kws, map (\<lambda>w. (w, count_list ws w)) kws)"
    using assms tf by (simp add: frequency_analysis_def Let_def)
  have sub: "set kws \<subseteq> set ws" using top_frequencies_props [of ws] assms(4) by simp
  have q: "\<forall>w \<in> set kws. w \<notin> set sw \<and> py_isalpha w"
    using assms(3) sub by (auto simp add: qualifying_words_def)
  have a1: "map_of (fst (advanced_analysis e t)) ''keywords'' = Some (PList (map PStr kws))"
    using fa by (simp add: advanced_analysis_def Let_def update_conv' split: sum.splits prod.splits)
  have a2: "map_of (fst (advanced_analysis e t)) ''freq_dist''
        = Some (PDict (map (\<lambda>w. (w, PInt (int (count_list ws w)))) kws))"
    using fa
    by (simp add: advanced_analysis_def Let_def update_conv' comp_def split: sum.splits prod.splits)
  have l: "length kws \<le> 20" using top_frequencies_props [of ws] assms(4) by simp
  have d: "distinct kws" using top_frequencies_props [of ws] assms(4) by simp
  have s: "sorted_wrt (keyword_before ws) kws"
    using top_frequencies_props [of ws] assms(4) by simp
  have t: "\<forall>k \<in> set kws. \<forall>w \<in> set ws - set kws. keyword_before ws k w"
    using top_frequencies_props [of ws] assms(4) by simp
  have e: "ws = [] \<longrightarrow> kws = []" using assms(4) by (simp add: top_frequencies_def)
  from fa a1 a2 l q d s t e show ?thesis by blast
qed

theorem keyword_list_properties_witness:
  "stopwords_english stub_env = Inr [''he'', ''is'', ''and'', ''a'']
   \<and> word_tokenize stub_env (py_lower ''c B a b 7 He b c'')
       = Inr [''c'', ''b'', ''a'', ''b'', ''7'', ''he'', ''b'', ''c'']
   \<and> map_of (fst (advanced_analysis stub_env ''c B a b 7 He b c'')) ''keywords''
       = Some (PList [PStr ''b'', PStr ''c''])
   \<and> map_of (fst (advanced_analysis stub_env ''c B a b 7 He b c'')) ''freq_dist''
       = Some (PDict [(''b'', PInt 3), (''c'', PInt 2)])
   \<and> sorted_wrt (keyword_before [''c'', ''b'', ''b'', ''b'', ''c'']) [''b'', ''c'']"
proof -
  have a: "stopwords_english stub_env = Inr [''he'', ''is'', ''and'', ''a'']"
    by (simp add: stub_env_def)
  have b: "word_tokenize stub_env (py_lower ''c B a b 7 He b c'')
             = Inr [''c'', ''b'', ''a'', ''b'', ''7'', ''he'', ''b'', ''c'']"
    by code_simp
  have c: "[''c'', ''b'', ''b'', ''b'', ''c'']
             = qualifying_words [''he'', ''is'', ''and'', ''a'']
                 [''c'', ''b'', ''a'', ''b'', ''7'', ''he'', ''b'', ''c'']"
    by code_simp
  have d: "[''b'', ''c''] = map fst (top_frequencies [''c'', ''b'', ''b'', ''b'', ''c''])"
    by code_simp
  have n: "count_list [''c'', ''b'', ''b'', ''b'', ''c''] ''b'' = 3
           \<and> count_list [''c'', ''b'', ''b'', ''b'', ''c''] ''c'' = 2"
    by simp
  from keyword_list_properties [OF a b c d] a b n show ?thesis by simp
qed

section \<open>Failure policy\<close>

lemma process_suras_append_failure:
  "process_suras e q pre st0 = (None, st1) \<Longrightarrow> process_sura e q s st1 = (Some x, st2) \<Longrightarrow>
   process_suras e q (pre @ s # post) st0 = (Some x, st2)"
  by (induction pre arbitrary: st0) (auto split: prod.splits option.splits)

lemma process_aya_files:
  "files (snd (snd (process_aya e fm aya acc))) = files (snd (snd acc))"
  by (auto simp add: process_aya_def split: prod.splits option.splits)

lemma aya_loop_files:
  "files (snd (snd (fold (process_aya e fm) ayas acc))) = files (snd (snd acc))"
  by (induction ayas arbitrary: acc) (simp_all add: process_aya_files)

lemma process_sura_write_failure:
  assumes "coerce_index (attrib_get s ''index'') = Inr idx"
    and "open_and_dump e (output_path idx) = Some x"
  shows "fst (process_sura e q s st) = None
     \<and> files (snd (process_sura e q s st)) = files st
     \<and> last (logged (snd (process_sura e q s st))) = ErrorSaving idx x"
  using assms aya_loop_files [of e "collect_footers s" "findall s ''aya''" "([], [], st)"]
  by (auto simp add: process_sura_def save_sura_analysis_def dict_get_def Let_def
        split: prod.splits)

text \<open>
  C6: when the chapters before one have been assembled without an exception and that
  chapter raises, \<open>process_tafsir_file\<close> logs the exception and raises it: the state of
  the run is the one at the failure, so the chapters after it are not processed. When
  the chapter record is built and opening or writing its file raises, \<open>process_sura\<close>
  raises nothing, writes no file, logs the failure, and the loop goes on with the next
  chapter.
\<close>

theorem failure_policy_asymmetry:
  "(findall root ''sura'' = pre @ s # post
     \<and> process_suras e (dict_get (attrib root) ''name'' ''Unknown'') pre
          (st\<lparr>logged := logged st @ [StartProcessing file_path]\<rparr>) = (None, st1)
     \<and> process_sura e (dict_get (attrib root) ''name'' ''Unknown'') s st1 = (Some x, st2)
    \<longrightarrow> process_tafsir_file e file_path (Inr (Some root)) st
          = (Some x, st2\<lparr>logged := logged st2 @ [ErrorProcessing file_path x]\<rparr>))
   \<and> (coerce_index (attrib_get s ''index'') = Inr idx \<and> open_and_dump e (output_path idx) = Some y
    \<longrightarrow> fst (process_sura e q s st) = None
        \<and> files (snd (process_sura e q s st)) = files st
        \<and> last (logged (snd (process_sura e q s st))) = ErrorSaving idx y
        \<and> process_suras e q (s # rest) st = process_suras e q rest (snd (process_sura e q s st)))"
proof (intro conjI impI)
  assume a: "findall root ''sura'' = pre @ s # post
     \<and> process_suras e (dict_get (attrib root) ''name'' ''Unknown'') pre
          (st\<lparr>logged := logged st @ [StartProcessing file_path]\<rparr>) = (None, st1)
     \<and> process_sura e (dict_get (attrib root) ''name'' ''Unknown'') s st1 = (Some x, st2)"
  then have "process_suras e (dict_get (attrib root) ''name'' ''Unknown'') (pre @ s # post)
          (st\<lparr>logged := logged st @ [StartProcessing file_path]\<rparr>) = (Some x, st2)"
    by (simp add: process_suras_append_failure)
  with a show "process_tafsir_file e file_path (Inr (Some root)) st
          = (Some x, st2\<lparr>logged := logged st2 @ [ErrorProcessing file_path x]\<rparr>)"
    by (simp add: process_tafsir_file_def Let_def)
next
  assume b: "coerce_index (attrib_get s ''index'') = Inr idx \<and> open_and_dump e (output_path idx) = Some y"
  then have w: "fst (process_sura e q s st) = None
     \<and> files (snd (process_sura e q s st)) = files st
     \<and> last (logged (snd (process_sura e q s st))) = ErrorSaving idx y"
    using process_sura_write_failure [of s idx e y q st] by simp
  from w show "fst (process_sura e q s st) = None" by simp
  from w show "files (snd (process_sura e q s st)) = files st" by simp
  from w show "last (logged (snd (process_sura e q s st))) = ErrorSaving idx y" by simp
  from w show "process_suras e q (s # rest) st = process_suras e q rest (snd (process_sura e q s st))"
    by (cases "process_sura e q s st") simp
qed

theorem failure_policy_asymmetry_witness:
  "findall example_root ''sura'' = [first_sura] @ second_sura # [third_sura]
   \<and> fst (process_suras stub_env ''M'' [first_sura]
        (initial_state\<lparr>logged := logged initial_state @ [StartProcessing ''data/t.xml'']\<rparr>)) = None
   \<and> fst (process_sura stub_env ''M'' second_sura
        (snd (process_suras stub_env ''M'' [first_sura]
           (initial_state\<lparr>logged := logged initial_state @ [StartProcessing ''data/t.xml'']\<rparr>))))
       = Some (ValueError [CHR 0xB2])
   \<and> fst (process_tafsir_file stub_env ''data/t.xml'' (Inr (Some example_root)) initial_state)
       = Some (ValueError [CHR 0xB2])
   \<and> map fst (files (snd (process_tafsir_file stub_env ''data/t.xml'' (Inr (Some example_root))
        initial_state))) = [''output/sura_1.json'']
   \<and> coerce_index (attrib_get first_sura ''index'') = Inr (PInt 1)
   \<and> open_and_dump failing_disk_env (output_path (PInt 1)) = Some (External ''disk'')
   \<and> fst (process_sura failing_disk_env ''M'' first_sura initial_state) = None
   \<and> process_suras failing_disk_env ''M'' (first_sura # [third_sura]) initial_state
       = process_suras failing_disk_env ''M'' [third_sura]
           (snd (process_sura failing_disk_env ''M'' first_sura initial_state))"
proof -
  let ?st0 = "initial_state\<lparr>logged := logged initial_state @ [StartProcessing ''data/t.xml'']\<rparr>"
  let ?st1 = "snd (process_suras stub_env ''M'' [first_sura] ?st0)"
  let ?st2 = "snd (process_sura stub_env ''M'' second_sura ?st1)"
  have q: "dict_get (attrib example_root) ''name'' ''Unknown'' = ''M''" by code_simp
  have h1: "findall example_root ''sura'' = [first_sura] @ second_sura # [third_sura]"
    by code_simp
  have f2: "fst (process_suras stub_env ''M'' [first_sura] ?st0) = None" by code_simp
  then have h2: "process_suras stub_env ''M'' [first_sura] ?st0 = (None, ?st1)"
    by (metis prod.collapse)
  have f3: "fst (process_sura stub_env ''M'' second_sura ?st1) = Some (ValueError [CHR 0xB2])"
    by code_simp
  then have h3: "process_sura stub_env ''M'' second_sura ?st1 = (Some (ValueError [CHR 0xB2]), ?st2)"
    by (metis prod.collapse)
  have r: "process_tafsir_file stub_env ''data/t.xml'' (Inr (Some example_root)) initial_state
       = (Some (ValueError [CHR 0xB2]),
          ?st2\<lparr>logged := logged ?st2 @ [ErrorProcessing ''data/t.xml'' (ValueError [CHR 0xB2])]\<rparr>)"
    using failure_policy_asymmetry [where root = example_root and pre = "[first_sura]" and s = second_sura
                and post = "[third_sura]" and e = stub_env and st = initial_state
                and file_path = "''data/t.xml''" and ?st1.0 = ?st1 and ?st2.0 = ?st2
                and x = "ValueError [CHR 0xB2]"] q h1 h2 h3
    by simp
  have fl: "map fst (files ?st2) = [''output/sura_1.json'']" by code_simp
  have i1: "coerce_index (attrib_get first_sura ''index'') = Inr (PInt 1)" by code_simp
  have i2: "open_and_dump failing_disk_env (output_path (PInt 1)) = Some (External ''disk'')"
    by (simp add: failing_disk_env_def)
  have w: "fst (process_sura failing_disk_env ''M'' first_sura initial_state) = None
     \<and> process_suras failing_disk_env ''M'' (first_sura # [third_sura]) initial_state
       = process_suras failing_disk_env ''M'' [third_sura]
           (snd (process_sura failing_disk_env ''M'' first_sura initial_state))"
    using failure_policy_asymmetry [where s = first_sura and idx = "PInt 1" and e = failing_disk_env
                and y = "External ''disk''" and q = "''M''" and st = initial_state
                and rest = "[third_sura]"] i1 i2
    by simp
  from h1 f2 f3 r fl i1 i2 w show ?thesis by simp
qed

section \<open>Markers and clean text\<close>

lemma first_some_all_None: "(\<And>k. k \<in> set ks \<Longrightarrow> f k = None) \<Longrightarrow> first_some (map f ks) = None"
  by (induction ks) simp_all

lemma closing_brace_not_decimal: "\<not> py_isdecimal_char CHR ''}''"
  by (simp add: py_isdecimal_char_def codepoint_def)

lemma opening_brace_not_decimal: "\<not> py_isdecimal_char CHR ''{''"
  by (simp add: py_isdecimal_char_def codepoint_def)

lemma run_digit_nth: "k < run False Digit cs \<Longrightarrow> py_isdecimal_char (cs ! k)"
  unfolding run_def
  by (metis atom_ok.simps(2) nth_mem set_takeWhileD takeWhile_nth)

lemma run_le_length: "run ic a cs \<le> length cs"
  by (simp add: run_def length_takeWhile_le)

lemma brace_after_digits:
  "k < run False Digit cs \<Longrightarrow> rmatch False [One (Lit CHR ''}'')] (drop k cs) caps = None"
proof -
  assume a: "k < run False Digit cs"
  then have "k < length cs" using run_le_length [of False Digit cs] by simp
  then have "drop k cs = cs ! k # drop (Suc k) cs" by (simp add: Cons_nth_drop_Suc)
  moreover have "cs ! k \<noteq> CHR ''}''" using run_digit_nth [OF a] closing_brace_not_decimal by auto
  ultimately show ?thesis by simp
qed

lemma brace_at_end_of_digits:
  "rmatch False [One (Lit CHR ''}'')] (drop n cs) caps =
     (if n < length cs \<and> cs ! n = CHR ''}'' then Some (caps, drop (Suc n) cs) else None)"
proof (cases "n < length cs")
  case True
  then have "drop n cs = cs ! n # drop (Suc n) cs" by (simp add: Cons_nth_drop_Suc)
  then show ?thesis using True by simp
next
  case False
  then show ?thesis by simp
qed

lemma greedy_digits_then_brace:
  "first_some (map (\<lambda>k. rmatch False [One (Lit CHR ''}'')] (drop k cs) (g k))
                   (rev [1 ..< Suc (run False Digit cs)])) =
   (let n = run False Digit cs
    in if 0 < n \<and> n < length cs \<and> cs ! n = CHR ''}'' then Some (g n, drop (Suc n) cs) else None)"
proof (cases "run False Digit cs")
  case 0
  then show ?thesis by simp
next
  case (Suc m)
  have r: "rev [1 ..< Suc (Suc m)] = Suc m # rev [1 ..< Suc m]" by simp
  have "first_some (map (\<lambda>k. rmatch False [One (Lit CHR ''}'')] (drop k cs) (g k))
           (rev [1 ..< Suc m])) = None"
  proof (rule first_some_all_None)
    fix k assume "k \<in> set (rev [1 ..< Suc m])"
    then have "k < Suc m" by (simp del: upt_Suc)
    then have "k < run False Digit cs" using Suc by simp
    then show "rmatch False [One (Lit CHR ''}'')] (drop k cs) (g k) = None"
      by (rule brace_after_digits)
  qed
  then show ?thesis
    unfolding Suc r
    by (simp add: brace_at_end_of_digits Let_def del: upt_Suc rmatch.simps)
qed

lemma digits_group_then_brace:
  "rmatch False [CapPlus Digit, One (Lit CHR ''}'')] cs [] =
   (let n = run False Digit cs
    in if 0 < n \<and> n < length cs \<and> cs ! n = CHR ''}''
       then Some ([take n cs], drop (Suc n) cs) else None)"
  by (simp only: rmatch.simps(6) append_Nil greedy_digits_then_brace)

lemma digits_then_brace:
  "rmatch False [Plus Digit, One (Lit CHR ''}'')] cs [] =
   (let n = run False Digit cs
    in if 0 < n \<and> n < length cs \<and> cs ! n = CHR ''}''
       then Some ([], drop (Suc n) cs) else None)"
  by (simp only: rmatch.simps(5) greedy_digits_then_brace)

lemma rmatch_marker_group:
  "rmatch False marker_group_pattern s [] = map_option (\<lambda>(d, r). ([d], r)) (marker_prefix s)"
proof (cases s)
  case Nil
  then show ?thesis by (simp add: marker_group_pattern_def marker_prefix_def)
next
  case (Cons c cs)
  have "rmatch False marker_group_pattern (c # cs) [] =
          (if c = CHR ''{'' then rmatch False [CapPlus Digit, One (Lit CHR ''}'')] cs [] else None)"
    unfolding marker_group_pattern_def by (simp only: rmatch.simps(2) list.case atom_ok.simps if_False)
  then show ?thesis
    unfolding Cons by (simp add: digits_group_then_brace marker_prefix_def Let_def del: rmatch.simps)
qed

lemma rmatch_marker:
  "rmatch False marker_pattern s [] = map_option (\<lambda>(d, r). ([], r)) (marker_prefix s)"
proof (cases s)
  case Nil
  then show ?thesis by (simp add: marker_pattern_def marker_prefix_def)
next
  case (Cons c cs)
  have "rmatch False marker_pattern (c # cs) [] =
          (if c = CHR ''{'' then rmatch False [Plus Digit, One (Lit CHR ''}'')] cs [] else None)"
    unfolding marker_pattern_def by (simp only: rmatch.simps(2) list.case atom_ok.simps if_False)
  then show ?thesis
    unfolding Cons by (simp add: digits_then_brace marker_prefix_def Let_def del: rmatch.simps)
qed


lemma marker_prefix_shape:
  assumes "marker_prefix s = Some (d, rest)"
  shows "s = CHR ''{'' # d @ CHR ''}'' # rest \<and> d \<noteq> [] \<and> list_all py_isdecimal_char d"
proof -
  from assms obtain cs where s: "s = CHR ''{'' # cs"
    by (cases s) (auto simp add: marker_prefix_def split: if_splits)
  let ?n = "run False Digit cs"
  from assms s have n: "0 < ?n" "?n < length cs" "cs ! ?n = CHR ''}''"
    and d: "d = take ?n cs" and r: "rest = drop (Suc ?n) cs"
    by (auto simp add: marker_prefix_def Let_def split: if_splits)
  have "cs = take ?n cs @ cs ! ?n # drop (Suc ?n) cs"
    using n(2) by (simp add: id_take_nth_drop [symmetric])
  then have c: "cs = d @ CHR ''}'' # rest" using d r n(3) by simp
  have "take ?n cs = takeWhile (atom_ok False Digit) cs"
    unfolding run_def by (rule takeWhile_eq_take [symmetric])
  then have "list_all py_isdecimal_char d"
    unfolding d by (auto simp add: list_all_iff dest: set_takeWhileD)
  moreover have "d \<noteq> []" using d n by auto
  ultimately show ?thesis using s c by simp
qed

lemma marker_prefix_shorter:
  assumes "marker_prefix (c # cs) = Some (d, rest)"
  shows "length rest < Suc (length cs)"
proof -
  from marker_prefix_shape [OF assms] have "cs = d @ CHR ''}'' # rest" by simp
  then have "length cs = length d + Suc (length rest)" by simp
  then show ?thesis by simp
qed

lemma marker_prefix_no_brace: "c \<noteq> CHR ''{'' \<Longrightarrow> marker_prefix (c # cs) = None"
  by (simp add: marker_prefix_def)

lemma marker_prefix_built:
  assumes "d \<noteq> []" and "list_all py_isdecimal_char d"
  shows "marker_prefix (CHR ''{'' # d @ CHR ''}'' # rest) = Some (d, rest)"
proof -
  have "\<And>x. x \<in> set d \<Longrightarrow> atom_ok False Digit x"
    using assms(2) by (simp add: list_all_iff)
  then have "takeWhile (atom_ok False Digit) (d @ CHR ''}'' # rest)
               = d @ takeWhile (atom_ok False Digit) (CHR ''}'' # rest)"
    by (rule takeWhile_append2)
  then have "takeWhile (atom_ok False Digit) (d @ CHR ''}'' # rest) = d"
    using closing_brace_not_decimal by simp
  then have "run False Digit (d @ CHR ''}'' # rest) = length d" by (simp add: run_def)
  then show ?thesis using assms(1) by (simp add: marker_prefix_def)
qed

lemma extract_markers_Nil: "extract_markers [] = []"
  by (simp add: extract_markers_def rmatch_marker_group marker_prefix_def del: rmatch.simps)

lemma extract_markers_Cons:
  "extract_markers (c # cs) =
     (case marker_prefix (c # cs) of
        None \<Rightarrow> extract_markers cs
      | Some (d, rest) \<Rightarrow> d # extract_markers rest)"
proof (cases "marker_prefix (c # cs)")
  case None
  then show ?thesis
    by (simp add: extract_markers_def rmatch_marker_group del: rmatch.simps)
next
  case (Some a)
  obtain d rest where a: "a = (d, rest)" by (cases a)
  have "length rest < Suc (length cs)" using Some a by (simp add: marker_prefix_shorter)
  then show ?thesis using Some a
    by (simp add: extract_markers_def rmatch_marker_group del: rmatch.simps)
qed

lemma remove_Cons:
  "re_sub_empty marker_pattern (c # cs) =
     (case marker_prefix (c # cs) of
        None \<Rightarrow> c # re_sub_empty marker_pattern cs
      | Some (d, rest) \<Rightarrow> re_sub_empty marker_pattern rest)"
proof (cases "marker_prefix (c # cs)")
  case None
  then show ?thesis by (simp add: rmatch_marker del: rmatch.simps)
next
  case (Some a)
  obtain d rest where a: "a = (d, rest)" by (cases a)
  have "length rest < Suc (length cs)" using Some a by (simp add: marker_prefix_shorter)
  then show ?thesis using Some a by (simp add: rmatch_marker del: rmatch.simps)
qed


lemma marker_at_drop: "marker_at raw i k = marker_at (drop i raw) 0 k"
proof (cases "i + k + 1 < length raw")
  case True
  then have a: "drop i raw ! 0 = raw ! i" and b: "drop i raw ! (k + 1) = raw ! (i + k + 1)"
    by (simp_all add: add.assoc)
  have c: "drop (Suc 0) (drop i raw) = drop (Suc i) raw" by simp
  have d: "0 + k + 1 < length (drop i raw)" using True by simp
  show ?thesis
    unfolding marker_at_def using True a b c d by (simp del: drop_drop)
next
  case False
  then have "\<not> (0 + k + 1 < length (drop i raw))" by simp
  then show ?thesis unfolding marker_at_def using False by blast
qed

lemma marker_at_0:
  "marker_at s 0 k = (\<exists>d r. marker_prefix s = Some (d, r) \<and> length d = k)"
proof
  assume m: "marker_at s 0 k"
  then have k: "0 < k" "k + 1 < length s" and b: "s ! 0 = CHR ''{''"
    and ds: "list_all py_isdecimal_char (take k (drop (Suc 0) s))"
    and e: "s ! (k + 1) = CHR ''}''"
    by (simp_all add: marker_at_def)
  from k obtain cs where s: "s = CHR ''{'' # cs" using b by (cases s) auto
  have kl: "k < length cs" using k s by simp
  have ck: "cs ! k = CHR ''}''" using e s by simp
  have "cs = take k cs @ cs ! k # drop (Suc k) cs" using kl by (simp add: id_take_nth_drop [symmetric])
  then have shape: "s = CHR ''{'' # take k cs @ CHR ''}'' # drop (Suc k) cs" using s ck by simp
  have "take k cs \<noteq> []" using k(1) kl by auto
  moreover have "list_all py_isdecimal_char (take k cs)" using ds s by simp
  ultimately have "marker_prefix (CHR ''{'' # take k cs @ CHR ''}'' # drop (Suc k) cs)
                     = Some (take k cs, drop (Suc k) cs)"
    by (rule marker_prefix_built)
  then have "marker_prefix s = Some (take k cs, drop (Suc k) cs)" using shape by simp
  moreover have "length (take k cs) = k" using kl by simp
  ultimately show "\<exists>d r. marker_prefix s = Some (d, r) \<and> length d = k" by blast
next
  assume "\<exists>d r. marker_prefix s = Some (d, r) \<and> length d = k"
  then obtain d r where p: "marker_prefix s = Some (d, r)" and l: "length d = k" by blast
  from marker_prefix_shape [OF p]
  have s: "s = CHR ''{'' # d @ CHR ''}'' # r" and n: "d \<noteq> []" and ds: "list_all py_isdecimal_char d"
    by simp_all
  have "s ! (k + 1) = CHR ''}''" using s l by (metis Suc_eq_plus1 nth_Cons_Suc nth_append_length)
  moreover have "take k (drop (Suc 0) s) = d" using s l by (metis append_eq_conv_conj drop0 drop_Suc_Cons)
  moreover have "k + 1 < length s" using s l by (metis Suc_eq_plus1 add_Suc_right length_Cons length_append less_add_Suc1 not_less_eq)
  moreover have "s ! 0 = CHR ''{''" using s by (metis nth_Cons_0)
  moreover have "0 < k" using n l by auto
  ultimately show "marker_at s 0 k" using ds by (simp add: marker_at_def)
qed

lemma marker_at_iff:
  "marker_at raw i k = (\<exists>d r. marker_prefix (drop i raw) = Some (d, r) \<and> length d = k)"
  using marker_at_drop [of raw i k] marker_at_0 [of "drop i raw" k] by simp


lemma filter_eq_upt: "a \<le> n \<Longrightarrow> n < b \<Longrightarrow> filter (\<lambda>k. k = n) [a ..< b] = [n]"
proof (induction b)
  case 0
  then show ?case by simp
next
  case (Suc b)
  show ?case
  proof (cases "n = b")
    case True
    then have "filter (\<lambda>k. k = n) [a ..< b] = []" by (auto simp add: filter_empty_conv)
    then show ?thesis using True Suc.prems by simp
  next
    case False
    then have "n < b" using Suc.prems by simp
    then have "filter (\<lambda>k. k = n) [a ..< b] = [n]" using Suc by simp
    then show ?thesis using False Suc.prems by simp
  qed
qed

lemma markers_at_position:
  assumes "i < length raw"
  shows "map (\<lambda>k. take k (drop (Suc i) raw)) (filter (marker_at raw i) [1 ..< length raw])
           = marker_here (drop i raw)"
proof (cases "marker_prefix (drop i raw)")
  case None
  then have "\<And>k. \<not> marker_at raw i k" by (simp add: marker_at_iff)
  then show ?thesis using None by (simp add: marker_here_def)
next
  case (Some a)
  obtain d r where a: "a = (d, r)" by (cases a)
  from marker_prefix_shape [of "drop i raw" d r] Some a
  have sh: "drop i raw = CHR ''{'' # d @ CHR ''}'' # r" and n: "d \<noteq> []" by simp_all
  have m: "marker_at raw i = (\<lambda>k. k = length d)"
    using Some a by (auto simp add: marker_at_iff fun_eq_iff)
  have "length (drop i raw) = length d + 2 + length r" using sh by simp
  then have l: "length d < length raw" by simp
  have "1 \<le> length d" using n by (cases d) simp_all
  then have f: "filter (\<lambda>k. k = length d) [1 ..< length raw] = [length d]"
    using l by (rule filter_eq_upt)
  have "drop (Suc i) raw = d @ CHR ''}'' # r"
    using sh by (metis drop_Suc list.sel(3) tl_drop)
  then have "take (length d) (drop (Suc i) raw) = d" by simp
  then show ?thesis using Some a f m by (simp add: marker_here_def)
qed

lemma spec_markers_positions:
  "spec_markers raw = concat (map (\<lambda>i. marker_here (drop i raw)) [0 ..< length raw])"
  unfolding spec_markers_def
  by (rule arg_cong [where f = concat]) (simp add: markers_at_position del: One_nat_def)

lemma positions_Cons:
  "concat (map (\<lambda>i. f (drop i (c # cs))) [0 ..< length (c # cs)])
     = f (c # cs) @ concat (map (\<lambda>i. f (drop i cs)) [0 ..< length cs])"
proof -
  have "[0 ..< length (c # cs)] = 0 # map Suc [0 ..< length cs]"
    by (simp add: upt_conv_Cons map_Suc_upt del: upt_Suc)
  then show ?thesis by (simp add: comp_def del: upt_Suc)
qed

lemma spec_markers_Nil: "spec_markers [] = []"
  by (simp add: spec_markers_def)

lemma spec_markers_Cons: "spec_markers (c # cs) = marker_here (c # cs) @ spec_markers cs"
  unfolding spec_markers_positions by (rule positions_Cons)

lemma spec_markers_skip:
  "list_all py_isdecimal_char d \<Longrightarrow> spec_markers (d @ CHR ''}'' # rest) = spec_markers rest"
proof (induction d)
  case Nil
  then show ?case by (simp add: spec_markers_Cons marker_here_def marker_prefix_no_brace)
next
  case (Cons x d)
  then have "x \<noteq> CHR ''{''" using opening_brace_not_decimal by auto
  then show ?case using Cons by (simp add: spec_markers_Cons marker_here_def marker_prefix_no_brace)
qed

lemma extract_markers_spec: "extract_markers raw = spec_markers raw"
proof (induction raw rule: length_induct)
  case (1 raw)
  show ?case
  proof (cases raw)
    case Nil
    then show ?thesis by (simp add: extract_markers_Nil spec_markers_Nil)
  next
    case (Cons c cs)
    show ?thesis
    proof (cases "marker_prefix (c # cs)")
      case None
      have "extract_markers cs = spec_markers cs" using 1 Cons by simp
      then show ?thesis using None Cons
        by (simp add: extract_markers_Cons spec_markers_Cons marker_here_def)
    next
      case (Some a)
      obtain d rest where a: "a = (d, rest)" by (cases a)
      from marker_prefix_shape [of "c # cs" d rest] Some a
      have sh: "cs = d @ CHR ''}'' # rest" and ds: "list_all py_isdecimal_char d" by simp_all
      have "length rest < length raw" using sh Cons by simp
      then have "extract_markers rest = spec_markers rest" using 1 by simp
      moreover have "spec_markers cs = spec_markers rest"
        unfolding sh using ds by (rule spec_markers_skip)
      ultimately show ?thesis using Some a Cons
        by (simp add: extract_markers_Cons spec_markers_Cons marker_here_def)
    qed
  qed
qed


lemma covered_iff:
  "covered raw p = (\<exists>i d r. i \<le> p \<and> marker_prefix (drop i raw) = Some (d, r) \<and> p \<le> i + length d + 1)"
proof
  assume "covered raw p"
  then have "\<exists>i \<in> set [0 ..< Suc p]. \<exists>k \<in> set [1 ..< length raw].
               marker_at raw i k \<and> p \<le> i + k + 1"
    unfolding covered_def list_ex_iff .
  then obtain i k where "i \<in> set [0 ..< Suc p]" "marker_at raw i k" "p \<le> i + k + 1"
    by blast
  then have "i \<le> p" "marker_at raw i k" "p \<le> i + k + 1" by (auto simp del: upt_Suc)
  then show "\<exists>i d r. i \<le> p \<and> marker_prefix (drop i raw) = Some (d, r) \<and> p \<le> i + length d + 1"
    by (auto simp add: marker_at_iff)
next
  assume "\<exists>i d r. i \<le> p \<and> marker_prefix (drop i raw) = Some (d, r) \<and> p \<le> i + length d + 1"
  then obtain i d r where i: "i \<le> p" and m: "marker_prefix (drop i raw) = Some (d, r)"
    and p: "p \<le> i + length d + 1" by blast
  have ma: "marker_at raw i (length d)" using m by (auto simp add: marker_at_iff)
  then have "0 < length d" "i + length d + 1 < length raw" by (simp_all add: marker_at_def)
  then have "length d \<in> set [1 ..< length raw]" by (auto simp add: Suc_le_eq)
  moreover have "i \<in> set [0 ..< Suc p]" using i by (simp del: upt_Suc)
  ultimately show "covered raw p"
    unfolding covered_def list_ex_iff using ma p by blast
qed

lemma covered_after_prefix:
  assumes "\<And>i d r. i < length pre \<Longrightarrow> marker_prefix (drop i (pre @ rest)) = Some (d, r)
             \<Longrightarrow> i + length d + 1 < length pre"
  shows "covered (pre @ rest) (length pre + p) = covered rest p"
proof
  assume "covered (pre @ rest) (length pre + p)"
  then obtain i d r where i: "i \<le> length pre + p"
    and m: "marker_prefix (drop i (pre @ rest)) = Some (d, r)"
    and q: "length pre + p \<le> i + length d + 1"
    unfolding covered_iff by blast
  have ge: "length pre \<le> i"
  proof (rule ccontr)
    assume "\<not> length pre \<le> i"
    then have "i < length pre" by simp
    from assms [OF this m] q show False by simp
  qed
  then have "drop i (pre @ rest) = drop (i - length pre) rest" by simp
  then have "marker_prefix (drop (i - length pre) rest) = Some (d, r)" using m by simp
  moreover have "i - length pre \<le> p" using i ge by simp
  moreover have "p \<le> (i - length pre) + length d + 1" using q ge by simp
  ultimately show "covered rest p" unfolding covered_iff by blast
next
  assume "covered rest p"
  then obtain i d r where i: "i \<le> p" and m: "marker_prefix (drop i rest) = Some (d, r)"
    and q: "p \<le> i + length d + 1"
    unfolding covered_iff by blast
  have "drop (length pre + i) (pre @ rest) = drop i rest" by simp
  then have "marker_prefix (drop (length pre + i) (pre @ rest)) = Some (d, r)" using m by simp
  moreover have "length pre + i \<le> length pre + p" using i by simp
  moreover have "length pre + p \<le> (length pre + i) + length d + 1" using q by simp
  ultimately show "covered (pre @ rest) (length pre + p)" unfolding covered_iff by blast
qed

lemma upt_shift: "[n ..< n + m] = map (\<lambda>q. n + q) [0 ..< m]"
  by (induction m) simp_all

lemma spec_remove_after_prefix:
  assumes "\<And>i d r. i < length pre \<Longrightarrow> marker_prefix (drop i (pre @ rest)) = Some (d, r)
             \<Longrightarrow> i + length d + 1 < length pre"
  shows "spec_remove_markers (pre @ rest) =
           map (\<lambda>p. (pre @ rest) ! p) (filter (\<lambda>p. \<not> covered (pre @ rest) p) [0 ..< length pre])
           @ spec_remove_markers rest"
proof -
  have "[0 ..< length pre + length rest] = [0 ..< length pre] @ [length pre ..< length pre + length rest]"
    by (rule upt_add_eq_append) simp
  then have u: "[0 ..< length (pre @ rest)]
                  = [0 ..< length pre] @ map (\<lambda>q. length pre + q) [0 ..< length rest]"
    by (simp only: upt_shift length_append)
  have c: "\<And>p. covered (pre @ rest) (length pre + p) = covered rest p"
    using assms by (rule covered_after_prefix)
  have f: "filter (\<lambda>p. \<not> covered (pre @ rest) p) (map (\<lambda>q. length pre + q) [0 ..< length rest])
             = map (\<lambda>q. length pre + q) (filter (\<lambda>p. \<not> covered rest p) [0 ..< length rest])"
    by (simp only: filter_map comp_def c)
  have n: "map (\<lambda>p. (pre @ rest) ! p)
             (map (\<lambda>q. length pre + q) (filter (\<lambda>p. \<not> covered rest p) [0 ..< length rest]))
           = map (\<lambda>p. rest ! p) (filter (\<lambda>p. \<not> covered rest p) [0 ..< length rest])"
    by (simp only: map_map comp_def nth_append_length_plus)
  show ?thesis
    unfolding spec_remove_markers_def u by (simp only: filter_append map_append f n)
qed

lemma drop_not_brace:
  "i < length s \<Longrightarrow> s ! i \<noteq> CHR ''{'' \<Longrightarrow> marker_prefix (drop i s) = None"
  by (simp add: Cons_nth_drop_Suc [symmetric] marker_prefix_no_brace)

lemma spec_remove_Nil: "spec_remove_markers [] = []"
  by (simp add: spec_remove_markers_def)

lemma spec_remove_no_marker:
  assumes "marker_prefix (c # cs) = None"
  shows "spec_remove_markers (c # cs) = c # spec_remove_markers cs"
proof -
  have nc: "\<not> covered ([c] @ cs) 0" using assms by (simp add: covered_iff)
  have "spec_remove_markers ([c] @ cs) =
          map (\<lambda>p. ([c] @ cs) ! p) (filter (\<lambda>p. \<not> covered ([c] @ cs) p) [0 ..< length [c]])
          @ spec_remove_markers cs"
    by (rule spec_remove_after_prefix) (use assms in simp)
  then show ?thesis using nc by simp
qed

lemma spec_remove_marker:
  assumes "marker_prefix s = Some (d, rest)"
  shows "spec_remove_markers s = spec_remove_markers rest"
proof -
  let ?pre = "CHR ''{'' # d @ [CHR ''}'']"
  from marker_prefix_shape [OF assms]
  have s: "s = ?pre @ rest" and ds: "list_all py_isdecimal_char d" by simp_all
  have inner: "\<And>i. 0 < i \<Longrightarrow> i < length ?pre \<Longrightarrow> marker_prefix (drop i (?pre @ rest)) = None"
  proof -
    fix i assume i: "0 < i" "i < length ?pre"
    then obtain j where j: "i = Suc j" by (cases i) simp_all
    have "(?pre @ rest) ! i = (d @ [CHR ''}'']) ! j" using i j by (simp add: nth_append)
    moreover have "j < length (d @ [CHR ''}''])" using i j by simp
    then have "(d @ [CHR ''}'']) ! j \<in> set (d @ [CHR ''}''])" by (rule nth_mem)
    moreover have "\<And>x. x \<in> set (d @ [CHR ''}'']) \<Longrightarrow> x \<noteq> CHR ''{''"
      using ds opening_brace_not_decimal by (auto simp add: list_all_iff)
    ultimately have "(?pre @ rest) ! i \<noteq> CHR ''{''" by simp
    then show "marker_prefix (drop i (?pre @ rest)) = None"
      using i by (intro drop_not_brace) simp_all
  qed
  have cond: "\<And>i d' r. i < length ?pre \<Longrightarrow> marker_prefix (drop i (?pre @ rest)) = Some (d', r)
             \<Longrightarrow> i + length d' + 1 < length ?pre"
  proof -
    fix i d' r assume i: "i < length ?pre"
      and m: "marker_prefix (drop i (?pre @ rest)) = Some (d', r)"
    have "i = 0" using inner [of i] i m by (cases "i = 0") simp_all
    then have "d' = d" using m assms s by simp
    then show "i + length d' + 1 < length ?pre" using \<open>i = 0\<close> by simp
  qed
  have all: "\<And>p. p < length ?pre \<Longrightarrow> covered (?pre @ rest) p"
  proof -
    fix p assume "p < length ?pre"
    then have "p \<le> 0 + length d + 1" by simp
    moreover have "marker_prefix (drop 0 (?pre @ rest)) = Some (d, rest)" using assms s by simp
    ultimately show "covered (?pre @ rest) p" unfolding covered_iff by blast
  qed
  have "filter (\<lambda>p. \<not> covered (?pre @ rest) p) [0 ..< length ?pre] = []"
    using all by (simp add: filter_empty_conv del: upt_Suc)
  moreover have "spec_remove_markers (?pre @ rest) =
          map (\<lambda>p. (?pre @ rest) ! p) (filter (\<lambda>p. \<not> covered (?pre @ rest) p) [0 ..< length ?pre])
          @ spec_remove_markers rest"
    using cond by (rule spec_remove_after_prefix)
  ultimately show ?thesis using s by simp
qed

lemma remove_spec: "re_sub_empty marker_pattern raw = spec_remove_markers raw"
proof (induction raw rule: length_induct)
  case (1 raw)
  show ?case
  proof (cases raw)
    case Nil
    then show ?thesis by (simp add: spec_remove_Nil)
  next
    case (Cons c cs)
    show ?thesis
    proof (cases "marker_prefix (c # cs)")
      case None
      have "re_sub_empty marker_pattern cs = spec_remove_markers cs" using 1 Cons by simp
      then show ?thesis using None Cons
        by (simp add: remove_Cons spec_remove_no_marker del: re_sub_empty.simps)
    next
      case (Some a)
      obtain d rest where a: "a = (d, rest)" by (cases a)
      have "length rest < length raw" using Some a Cons marker_prefix_shorter by simp
      then have "re_sub_empty marker_pattern rest = spec_remove_markers rest" using 1 by simp
      then show ?thesis using Some a Cons spec_remove_marker [of "c # cs" d rest]
        by (simp add: remove_Cons del: re_sub_empty.simps)
    qed
  qed
qed


lemma has_marker_brace:
  assumes "has_marker s"
  shows "CHR ''{'' \<in> set s"
proof -
  from assms obtain i k where "marker_at s i k"
    unfolding has_marker_def list_ex_iff by blast
  then have "i < length s" "s ! i = CHR ''{''" by (simp_all add: marker_at_def)
  then show ?thesis by (metis nth_mem)
qed

lemma braces_open_markers_iff:
  "braces_open_markers raw =
     (\<forall>i < length raw. raw ! i = CHR ''{'' \<longrightarrow> marker_prefix (drop i raw) \<noteq> None)"
proof -
  have "\<And>i. list_ex (marker_at raw i) [1 ..< length raw] = (marker_prefix (drop i raw) \<noteq> None)"
  proof
    fix i assume "list_ex (marker_at raw i) [1 ..< length raw]"
    then obtain k where "marker_at raw i k" unfolding list_ex_iff by blast
    then show "marker_prefix (drop i raw) \<noteq> None" by (auto simp add: marker_at_iff)
  next
    fix i assume "marker_prefix (drop i raw) \<noteq> None"
    then obtain d r where "marker_prefix (drop i raw) = Some (d, r)" by auto
    then have m: "marker_at raw i (length d)" by (auto simp add: marker_at_iff)
    then have "0 < length d" "i + length d + 1 < length raw" by (simp_all add: marker_at_def)
    then have "length d \<in> set [1 ..< length raw]" by (auto simp add: Suc_le_eq)
    with m show "list_ex (marker_at raw i) [1 ..< length raw]" unfolding list_ex_iff by blast
  qed
  then show ?thesis
    unfolding braces_open_markers_def list_all_iff by (auto simp del: One_nat_def)
qed

lemma braces_suffix:
  assumes "\<forall>i < length (pre @ rest). (pre @ rest) ! i = CHR ''{''
             \<longrightarrow> marker_prefix (drop i (pre @ rest)) \<noteq> None"
  shows "\<forall>i < length rest. rest ! i = CHR ''{'' \<longrightarrow> marker_prefix (drop i rest) \<noteq> None"
proof (intro allI impI)
  fix i assume i: "i < length rest" and b: "rest ! i = CHR ''{''"
  have "length pre + i < length (pre @ rest)" using i by simp
  moreover have "(pre @ rest) ! (length pre + i) = CHR ''{''" using b by simp
  ultimately have "marker_prefix (drop (length pre + i) (pre @ rest)) \<noteq> None"
    using assms by blast
  then show "marker_prefix (drop i rest) \<noteq> None" by simp
qed

lemma no_brace_left:
  "\<forall>i < length raw. raw ! i = CHR ''{'' \<longrightarrow> marker_prefix (drop i raw) \<noteq> None \<Longrightarrow>
   CHR ''{'' \<notin> set (re_sub_empty marker_pattern raw)"
proof (induction raw rule: length_induct)
  case (1 raw)
  show ?case
  proof (cases raw)
    case Nil
    then show ?thesis by simp
  next
    case (Cons c cs)
    show ?thesis
    proof (cases "marker_prefix (c # cs)")
      case None
      have "c \<noteq> CHR ''{''"
      proof
        assume "c = CHR ''{''"
        then have "raw ! 0 = CHR ''{''" "0 < length raw" using Cons by simp_all
        then have "marker_prefix (drop 0 raw) \<noteq> None" using "1.prems" by blast
        then show False using None Cons by simp
      qed
      moreover have "\<forall>i < length cs. cs ! i = CHR ''{'' \<longrightarrow> marker_prefix (drop i cs) \<noteq> None"
        using "1.prems" Cons braces_suffix [of "[c]" cs] by simp
      then have "CHR ''{'' \<notin> set (re_sub_empty marker_pattern cs)" using 1 Cons by simp
      ultimately show ?thesis using None Cons
        by (simp add: remove_Cons del: re_sub_empty.simps)
    next
      case (Some a)
      obtain d rest where a: "a = (d, rest)" by (cases a)
      from marker_prefix_shape [of "c # cs" d rest] Some a
      have sh: "raw = (CHR ''{'' # d @ [CHR ''}'']) @ rest" using Cons by simp
      have "\<forall>i < length rest. rest ! i = CHR ''{'' \<longrightarrow> marker_prefix (drop i rest) \<noteq> None"
        using "1.prems" braces_suffix [of "CHR ''{'' # d @ [CHR ''}'']" rest] unfolding sh by blast
      moreover have "length rest < length raw" using sh by simp
      ultimately have "CHR ''{'' \<notin> set (re_sub_empty marker_pattern rest)" using 1 by blast
      then show ?thesis using Some a Cons
        by (simp add: remove_Cons del: re_sub_empty.simps)
    qed
  qed
qed

lemma strip_subset: "set (py_strip s) \<subseteq> set s"
proof -
  have "set (py_strip s) \<subseteq> set (rev (dropWhile py_isspace_char s))"
    unfolding py_strip_def by (auto dest: set_dropWhileD)
  also have "\<dots> \<subseteq> set s" by (auto dest: set_dropWhileD)
  finally show ?thesis .
qed

lemma clean_text_without_marker:
  assumes "braces_open_markers raw"
  shows "\<not> has_marker (clean_text_of raw)"
proof
  assume "has_marker (clean_text_of raw)"
  then have "CHR ''{'' \<in> set (clean_text_of raw)" by (rule has_marker_brace)
  then have "CHR ''{'' \<in> set (re_sub_empty marker_pattern raw)"
    unfolding clean_text_of_def using strip_subset by blast
  moreover have "CHR ''{'' \<notin> set (re_sub_empty marker_pattern raw)"
    using assms by (intro no_brace_left) (simp add: braces_open_markers_iff)
  ultimately show False by simp
qed

text \<open>
  C1, as the code has it: in the record of a verse that is not the header, the markers
  sequence is the integers of all markers of the raw text, in the order of their
  positions, duplicates included, and the clean text is the raw text with every
  character that lies inside a marker removed, then trimmed of leading and trailing
  whitespace and of nothing else. When every opening brace of the raw text begins a
  marker, the clean text contains no marker.
\<close>

theorem markers_and_clean_text:
  "map_of (fst (aya_entry e fm idx raw n)) ''markers'' = Some (PList (map PStr (spec_markers raw)))
   \<and> map_of (fst (aya_entry e fm idx raw n)) ''clean_text''
       = Some (PStr (py_strip (spec_remove_markers raw)))
   \<and> (braces_open_markers raw \<longrightarrow> \<not> has_marker (py_strip (spec_remove_markers raw)))"
proof -
  have a: "map_of (fst (aya_entry e fm idx raw n)) ''markers''
             = Some (PList (map PStr (extract_markers raw)))"
    by (simp add: aya_entry_def Let_def split: prod.splits)
  have b: "map_of (fst (aya_entry e fm idx raw n)) ''clean_text'' = Some (PStr (clean_text_of raw))"
    by (simp add: aya_entry_def Let_def split: prod.splits)
  have c: "clean_text_of raw = py_strip (spec_remove_markers raw)"
    by (simp add: clean_text_of_def remove_spec)
  from a b c clean_text_without_marker [of raw] show ?thesis
    by (simp add: extract_markers_spec)
qed

theorem markers_and_clean_text_witness:
  "braces_open_markers '' a {1} b {22}{1} ''
   \<and> map_of (fst (aya_entry stub_env [] (Some ''2'') '' a {1} b {22}{1} '' 0)) ''markers''
       = Some (PList [PStr ''1'', PStr ''22'', PStr ''1''])
   \<and> map_of (fst (aya_entry stub_env [] (Some ''2'') '' a {1} b {22}{1} '' 0)) ''clean_text''
       = Some (PStr ''a  b'')
   \<and> \<not> has_marker ''a  b''"
proof -
  have a: "braces_open_markers '' a {1} b {22}{1} ''" by code_simp
  have b: "spec_markers '' a {1} b {22}{1} '' = [''1'', ''22'', ''1'']" by code_simp
  have c: "py_strip (spec_remove_markers '' a {1} b {22}{1} '') = ''a  b''" by code_simp
  from markers_and_clean_text [of stub_env "[]" "Some ''2''" "'' a {1} b {22}{1} ''" 0] a b c
  show ?thesis by simp
qed

text \<open>
  The claim C1 as stated has the clean text free of markers for every verse text.
  Removing the marker inside "{{1}2}" joins the characters around it into a marker.
\<close>

theorem removal_can_form_marker:
  "map_of (fst (aya_entry stub_env [] (Some ''2'') ''{{1}2}'' 0)) ''markers''
     = Some (PList [PStr ''1''])
   \<and> map_of (fst (aya_entry stub_env [] (Some ''2'') ''{{1}2}'' 0)) ''clean_text''
       = Some (PStr ''{2}'')
   \<and> has_marker ''{2}''"
  by code_simp

end
